theory Spec2Isabelle
  imports Complex_Main "HOL-Library.Sublist"
begin

section \<open>JavaScript values\<close>

text \<open>
  The route handlers are typed \<open>any\<close> throughout: what they receive is whatever
  \<open>JSON.parse\<close> produced, plus \<open>undefined\<close> for a missing property. A JSON number is a
  finite double, hence a rational; the code only ever tests numbers for truthiness.
  Strings are lists of characters with code points U+0000 to U+00FF; an object is the list
  of its own properties in insertion order.
\<close>

datatype jsval =
    JUndefined
  | JNull
  | JBool bool
  | JNum rat
  | JStr string
  | JArr "jsval list"
  | JObj "(string \<times> jsval) list"

text \<open>
  What a \<open>try\<close> block can catch here: a \<open>TypeError\<close> (property read on
  \<open>null\<close>/\<open>undefined\<close>, call of something that is not a function), a rejected
  \<open>fetch\<close>/\<open>res.json()\<close>/\<open>writeFile\<close> promise, or an explicit \<open>throw new Error(msg)\<close>.
\<close>

datatype js_error = TypeError | IOError | Thrown string

definition bindE :: "js_error + 'a \<Rightarrow> ('a \<Rightarrow> js_error + 'b) \<Rightarrow> js_error + 'b" where
  "bindE m f = (case m of Inl e \<Rightarrow> Inl e | Inr x \<Rightarrow> f x)"

text \<open>\<open>!v\<close> is \<open>\<not> truthy v\<close>.\<close>

fun truthy :: "jsval \<Rightarrow> bool" where
  "truthy JUndefined = False"
| "truthy JNull = False"
| "truthy (JBool b) = b"
| "truthy (JNum n) = (n \<noteq> 0)"
| "truthy (JStr s) = (s \<noteq> [])"
| "truthy (JArr xs) = True"
| "truthy (JObj kvs) = True"

text \<open>\<open>a || b\<close> on values.\<close>

definition jsOr :: "jsval \<Rightarrow> jsval \<Rightarrow> jsval" where
  "jsOr a b = (if truthy a then a else b)"

text \<open>
  \<open>v.k\<close> for the property names the handlers read (\<open>candidate\<close>, \<open>website\<close>,
  \<open>company\<close>, \<open>name\<close>, \<open>fullName\<close>, \<open>headLine\<close>, \<open>contacts\<close>, \<open>type\<close>, \<open>value\<close>,
  \<open>link\<close>, \<open>title\<close>, \<open>organic_results\<close>): none of them is a built-in property of a
  string, number, boolean or array, so the read yields \<open>undefined\<close> there; on \<open>null\<close>
  and \<open>undefined\<close> it throws.
\<close>

type_synonym obj = "(string \<times> jsval) list"

definition fieldOf :: "obj \<Rightarrow> string \<Rightarrow> jsval" where
  "fieldOf kvs k = (case map_of kvs k of Some v \<Rightarrow> v | None \<Rightarrow> JUndefined)"

fun getProp :: "jsval \<Rightarrow> string \<Rightarrow> js_error + jsval" where
  "getProp JUndefined k = Inl TypeError"
| "getProp JNull k = Inl TypeError"
| "getProp (JObj kvs) k = Inr (fieldOf kvs k)"
| "getProp v k = Inr JUndefined"

text \<open>\<open>{...o, k: v}\<close> on the property list of \<open>o\<close>: an existing \<open>k\<close> keeps its place and
  takes the new value, a new \<open>k\<close> goes last.\<close>

fun setProp :: "obj \<Rightarrow> string \<Rightarrow> jsval \<Rightarrow> obj" where
  "setProp [] k v = [(k, v)]"
| "setProp ((k', v') # kvs) k v = (if k' = k then (k, v) # kvs else (k', v') # setProp kvs k v)"

text \<open>\<open>Array.prototype.find\<close>, \<open>filter\<close> and \<open>map\<close> with a callback that may throw: the
  elements are visited in index order and the first throw ends the call.\<close>

fun jsFind :: "(jsval \<Rightarrow> js_error + bool) \<Rightarrow> jsval list \<Rightarrow> js_error + jsval option" where
  "jsFind p [] = Inr None"
| "jsFind p (x # xs) =
     (case p x of
        Inl e \<Rightarrow> Inl e
      | Inr b \<Rightarrow> if b then Inr (Some x) else jsFind p xs)"

fun jsFilter :: "(jsval \<Rightarrow> js_error + bool) \<Rightarrow> jsval list \<Rightarrow> js_error + jsval list" where
  "jsFilter p [] = Inr []"
| "jsFilter p (x # xs) =
     (case p x of
        Inl e \<Rightarrow> Inl e
      | Inr b \<Rightarrow>
          (case jsFilter p xs of
             Inl e \<Rightarrow> Inl e
           | Inr ys \<Rightarrow> Inr (if b then x # ys else ys)))"

fun jsMap :: "(jsval \<Rightarrow> js_error + jsval) \<Rightarrow> jsval list \<Rightarrow> js_error + jsval list" where
  "jsMap f [] = Inr []"
| "jsMap f (x # xs) =
     (case f x of
        Inl e \<Rightarrow> Inl e
      | Inr y \<Rightarrow> (case jsMap f xs of Inl e \<Rightarrow> Inl e | Inr ys \<Rightarrow> Inr (y # ys)))"

section \<open>Strings\<close>

text \<open>
  A character is a code point in the range U+0000 to U+00FF (Latin-1); strings with other
  code points are outside the model. \<open>String.prototype.toLowerCase\<close> on that range moves
  the letters \<open>A\<close> to \<open>Z\<close> (0x41 to 0x5A) and the accented capitals 0xC0 to 0xDE, without the
  multiplication sign 0xD7, up by 0x20, and leaves every other code point as it is (among
  them 0xB5, 0xDF and 0xFF, which are lower-case already).
\<close>

definition upperLetters :: string where
  "upperLetters =
     ''ABCDEFGHIJKLMNOPQRSTUVWXYZ'' @
       [
        CHR 0xC0, CHR 0xC1, CHR 0xC2, CHR 0xC3, CHR 0xC4, CHR 0xC5, CHR 0xC6, CHR 0xC7,
        CHR 0xC8, CHR 0xC9, CHR 0xCA, CHR 0xCB, CHR 0xCC, CHR 0xCD, CHR 0xCE, CHR 0xCF,
        CHR 0xD0, CHR 0xD1, CHR 0xD2, CHR 0xD3, CHR 0xD4, CHR 0xD5, CHR 0xD6, CHR 0xD8,
        CHR 0xD9, CHR 0xDA, CHR 0xDB, CHR 0xDC, CHR 0xDD, CHR 0xDE]"

definition lowerLetters :: string where
  "lowerLetters =
     ''abcdefghijklmnopqrstuvwxyz'' @
       [
        CHR 0xE0, CHR 0xE1, CHR 0xE2, CHR 0xE3, CHR 0xE4, CHR 0xE5, CHR 0xE6, CHR 0xE7,
        CHR 0xE8, CHR 0xE9, CHR 0xEA, CHR 0xEB, CHR 0xEC, CHR 0xED, CHR 0xEE, CHR 0xEF,
        CHR 0xF0, CHR 0xF1, CHR 0xF2, CHR 0xF3, CHR 0xF4, CHR 0xF5, CHR 0xF6, CHR 0xF8,
        CHR 0xF9, CHR 0xFA, CHR 0xFB, CHR 0xFC, CHR 0xFD, CHR 0xFE]"

definition lowerTable :: "(char \<times> char) list" where
  "lowerTable = zip upperLetters lowerLetters"

definition lowerChar :: "char \<Rightarrow> char" where
  "lowerChar c = (case map_of lowerTable c of Some d \<Rightarrow> d | None \<Rightarrow> c)"

definition toLowerCase :: "string \<Rightarrow> string" where
  "toLowerCase s = map lowerChar s"

text \<open>\<open>v.toLowerCase()\<close> on a value: only a string has the method.\<close>

fun toLowerCase_js :: "jsval \<Rightarrow> js_error + string" where
  "toLowerCase_js (JStr s) = Inr (toLowerCase s)"
| "toLowerCase_js v = Inl TypeError"

text \<open>\<open>s.includes(t)\<close>: \<open>t\<close> occurs in \<open>s\<close> as a contiguous block.\<close>

fun includesStr :: "string \<Rightarrow> string \<Rightarrow> bool" where
  "includesStr [] t = (t = [])"
| "includesStr (c # s) t = (prefix t (c # s) \<or> includesStr s t)"

section \<open>normalizeUrl (isv-search/route.ts, lines 6-13)\<close>

text \<open>\<open>.replace(/^https?:\/\//, '')\<close>\<close>

definition stripScheme :: "string \<Rightarrow> string" where
  "stripScheme s =
     (if prefix ''https://'' s then drop 8 s
      else if prefix ''http://'' s then drop 7 s
      else s)"

text \<open>\<open>.replace(/^www\./, '')\<close>\<close>

definition stripWww :: "string \<Rightarrow> string" where
  "stripWww s = (if prefix ''www.'' s then drop 4 s else s)"

text \<open>\<open>.replace(/\/$/, '')\<close>: without the \<open>m\<close> flag \<open>$\<close> is the end of the input.\<close>

definition stripSlash :: "string \<Rightarrow> string" where
  "stripSlash s = (if s \<noteq> [] \<and> last s = CHR ''/'' then butlast s else s)"

definition normalizeUrl :: "string \<Rightarrow> string" where
  "normalizeUrl url =
     (if url = [] then []
      else stripSlash (stripWww (stripScheme (toLowerCase url))))"

text \<open>The same function on an untyped argument: \<open>if (!url) return ''\<close> answers every
  falsy value, and a truthy value that is not a string has no \<open>toLowerCase\<close>.\<close>

definition normalizeUrl_js :: "jsval \<Rightarrow> js_error + string" where
  "normalizeUrl_js url =
     (if \<not> truthy url then Inr []
      else bindE (toLowerCase_js url)
             (\<lambda>l. Inr (stripSlash (stripWww (stripScheme l)))))"

text \<open>The normalizer as section 4.1 of the specification words it, written independently of
  the regular expressions: lower-case, then drop one leading scheme, then one leading
  \<open>www.\<close>, then one trailing slash.\<close>

fun afterPrefix :: "string \<Rightarrow> string \<Rightarrow> string option" where
  "afterPrefix [] s = Some s"
| "afterPrefix (p # ps) [] = None"
| "afterPrefix (p # ps) (c # cs) = (if p = c then afterPrefix ps cs else None)"

definition dropScheme_spec :: "string \<Rightarrow> string" where
  "dropScheme_spec s =
     (case afterPrefix ''http://'' s of
        Some r \<Rightarrow> r
      | None \<Rightarrow> (case afterPrefix ''https://'' s of Some r \<Rightarrow> r | None \<Rightarrow> s))"

definition dropWww_spec :: "string \<Rightarrow> string" where
  "dropWww_spec s = (case afterPrefix ''www.'' s of Some r \<Rightarrow> r | None \<Rightarrow> s)"

definition dropTrailingSlash_spec :: "string \<Rightarrow> string" where
  "dropTrailingSlash_spec s =
     (case rev s of
        [] \<Rightarrow> s
      | c # r \<Rightarrow> if c = CHR ''/'' then rev r else s)"

definition normalizeUrl_spec :: "string \<Rightarrow> string" where
  "normalizeUrl_spec s = dropTrailingSlash_spec (dropWww_spec (dropScheme_spec (toLowerCase s)))"

definition isLower :: "string \<Rightarrow> bool" where
  "isLower s = (toLowerCase s = s)"

definition endsWithSlash :: "string \<Rightarrow> bool" where
  "endsWithSlash s = (s \<noteq> [] \<and> last s = CHR ''/'')"

text \<open>A string is in normal form when none of the three replacements would fire on it.\<close>

definition noAffix :: "string \<Rightarrow> bool" where
  "noAffix s =
     (\<not> prefix ''http://'' s \<and> \<not> prefix ''https://'' s \<and> \<not> prefix ''www.'' s
      \<and> \<not> endsWithSlash s)"

section \<open>The matcher inside enrichWithSignalHire (isv-search/route.ts, lines 28-35)\<close>

text \<open>
  \<open>enrichWithSignalHire(company)\<close> is applied to objects; \<open>company\<close> is the property list
  of that object, with arbitrary fields and values. A record \<open>r\<close> of the snapshot is any
  JSON value: the sink stores request bodies as they come.
\<close>

text \<open>\<open>candidate.website && normalizeUrl(candidate.website) === normalizeUrl(company.website)\<close>,
  as the truth value the enclosing \<open>||\<close> sees.\<close>

definition exactPart :: "obj \<Rightarrow> jsval \<Rightarrow> js_error + bool" where
  "exactPart company candidate =
     bindE (getProp candidate ''website'') (\<lambda>w.
       if \<not> truthy w then Inr False
       else bindE (normalizeUrl_js w) (\<lambda>a.
            bindE (normalizeUrl_js (fieldOf company ''website'')) (\<lambda>b.
            Inr (a = b))))"

text \<open>\<open>candidate.company && company.name &&
  candidate.company.toLowerCase().includes(company.name.toLowerCase())\<close>\<close>

definition fallbackPart :: "obj \<Rightarrow> jsval \<Rightarrow> js_error + bool" where
  "fallbackPart company candidate =
     bindE (getProp candidate ''company'') (\<lambda>cc.
       if \<not> truthy cc then Inr False
       else if \<not> truthy (fieldOf company ''name'') then Inr False
       else bindE (toLowerCase_js cc) (\<lambda>a.
            bindE (toLowerCase_js (fieldOf company ''name'')) (\<lambda>b.
            Inr (includesStr a b))))"

text \<open>The callback handed to \<open>allResults.find\<close>.\<close>

definition matchRecord :: "obj \<Rightarrow> jsval \<Rightarrow> js_error + bool" where
  "matchRecord company r =
     bindE (getProp r ''candidate'') (\<lambda>candidate.
       if \<not> truthy candidate then Inr False
       else bindE (exactPart company candidate) (\<lambda>x.
            if x then Inr True else fallbackPart company candidate))"

text \<open>\<open>allResults.find(...)\<close>: only an array has \<open>find\<close>.\<close>

definition findMatch :: "obj \<Rightarrow> jsval \<Rightarrow> js_error + jsval option" where
  "findMatch company allResults =
     (case allResults of
        JArr rs \<Rightarrow> jsFind (matchRecord company) rs
      | _ \<Rightarrow> Inl TypeError)"

text \<open>The two match rules in the specification's terms, for a candidate value.\<close>

definition exactRule :: "obj \<Rightarrow> jsval \<Rightarrow> bool" where
  "exactRule company candidate =
     (case getProp candidate ''website'' of
        Inr (JStr w) \<Rightarrow>
          w \<noteq> [] \<and> normalizeUrl_js (fieldOf company ''website'') = Inr (normalizeUrl w)
      | _ \<Rightarrow> False)"

definition exactDeclined :: "obj \<Rightarrow> jsval \<Rightarrow> bool" where
  "exactDeclined company candidate =
     (case getProp candidate ''website'' of
        Inr w \<Rightarrow>
          \<not> truthy w \<or>
          (case (w, normalizeUrl_js (fieldOf company ''website'')) of
             (JStr s, Inr b) \<Rightarrow> normalizeUrl s \<noteq> b
           | _ \<Rightarrow> False)
      | Inl e \<Rightarrow> False)"

definition fallbackRule :: "obj \<Rightarrow> jsval \<Rightarrow> bool" where
  "fallbackRule company candidate =
     (case (getProp candidate ''company'', fieldOf company ''name'') of
        (Inr (JStr c), JStr n) \<Rightarrow>
          c \<noteq> [] \<and> n \<noteq> [] \<and> includesStr (toLowerCase c) (toLowerCase n)
      | _ \<Rightarrow> False)"

text \<open>
  Inputs on which the callback cannot throw: a query whose name and website are strings or
  falsy, and a record that is neither \<open>null\<close> nor \<open>undefined\<close> and whose candidate, when
  present, has a website and a company that are strings or falsy.
\<close>

definition strOrFalsy :: "jsval \<Rightarrow> bool" where
  "strOrFalsy v = (case v of JStr s \<Rightarrow> True | _ \<Rightarrow> \<not> truthy v)"

definition wfCompany :: "obj \<Rightarrow> bool" where
  "wfCompany company =
     (strOrFalsy (fieldOf company ''website'') \<and> strOrFalsy (fieldOf company ''name''))"

definition wfRecord :: "jsval \<Rightarrow> bool" where
  "wfRecord r =
     (case getProp r ''candidate'' of
        Inl e \<Rightarrow> False
      | Inr c \<Rightarrow>
          \<not> truthy c \<or>
          (case (getProp c ''website'', getProp c ''company'') of
             (Inr w, Inr n) \<Rightarrow> strOrFalsy w \<and> strOrFalsy n
           | _ \<Rightarrow> False))"

section \<open>The waiter: enrichWithSignalHire (isv-search/route.ts, lines 16-57)\<close>

text \<open>\<open>contacts.find((c) => c.type === ty)?.value\<close>\<close>

definition findContact :: "string \<Rightarrow> jsval \<Rightarrow> js_error + jsval" where
  "findContact ty contacts =
     (case contacts of
        JArr cs \<Rightarrow>
          bindE (jsFind (\<lambda>c. bindE (getProp c ''type'') (\<lambda>t. Inr (t = JStr ty))) cs) (\<lambda>m.
            case m of None \<Rightarrow> Inr JUndefined | Some c \<Rightarrow> getProp c ''value'')
      | _ \<Rightarrow> Inl TypeError)"

text \<open>Lines 37-44: the \<open>ceo\<close> object built from a matched candidate.\<close>

definition buildCeo :: "jsval \<Rightarrow> js_error + jsval" where
  "buildCeo candidate =
     bindE (getProp candidate ''contacts'') (\<lambda>cs0.
     let contacts = jsOr cs0 (JArr []) in
     bindE (getProp candidate ''fullName'') (\<lambda>fullName.
     bindE (getProp candidate ''headLine'') (\<lambda>headLine.
     bindE (findContact ''email'' contacts) (\<lambda>email.
     bindE (findContact ''phone'' contacts) (\<lambda>phone.
     Inr (JObj [(''name'', jsOr fullName (JStr ''N/A'')),
                (''title'', jsOr headLine (JStr ''N/A'')),
                (''email'', jsOr email (JStr ''N/A'')),
                (''phone'', jsOr phone (JStr ''N/A''))]))))))"

definition notFoundCeo :: jsval where
  "notFoundCeo =
     JObj [(''name'', JStr ''Not found''), (''title'', JStr []), (''email'', JStr []),
           (''phone'', JStr [])]"

definition errorCeo :: jsval where
  "errorCeo =
     JObj [(''name'', JStr ''Error''), (''title'', JStr []), (''email'', JStr []),
           (''phone'', JStr [])]"

text \<open>One turn of the loop body up to the \<open>break\<close> (lines 26-46): the argument is what
  \<open>fetch\<close> and \<open>res.json()\<close> delivered, a rejection or the parsed body; the result is the
  \<open>ceo\<close> to break with, or \<open>None\<close> to sleep and go round again.\<close>

definition pollOnce :: "obj \<Rightarrow> js_error + jsval \<Rightarrow> js_error + jsval option" where
  "pollOnce company res =
     bindE res (\<lambda>allResults.
     bindE (findMatch company allResults) (\<lambda>match.
       case match of
         None \<Rightarrow> Inr None
       | Some m \<Rightarrow>
           if \<not> truthy m then Inr None
           else bindE (getProp m ''candidate'') (\<lambda>candidate.
                  if \<not> truthy candidate then Inr None
                  else bindE (buildCeo candidate) (\<lambda>ceo. Inr (Some ceo)))))"

text \<open>
  What the function sees of the outside: whether the dispatching \<open>fetch\<close> settled or
  rejected, what the \<open>i\<close>-th poll delivers, and how many milliseconds the \<open>i\<close>-th turn
  takes on top of its 1500 ms sleep. Every \<open>fetch\<close> is taken to settle, and
  \<open>setTimeout(res, 1500)\<close> to let the clock advance by at least 1500 ms.
\<close>

record world =
  dispatch :: "js_error + unit"
  response :: "nat \<Rightarrow> js_error + jsval"
  latency :: "nat \<Rightarrow> nat"

text \<open>Lines 25-48: \<open>while (Date.now() - start < 15000)\<close>, with \<open>t\<close> the elapsed time at
  the head of turn \<open>i\<close>.\<close>

function pollLoop :: "obj \<Rightarrow> world \<Rightarrow> nat \<Rightarrow> nat \<Rightarrow> js_error + jsval option" where
  "pollLoop company w i t =
     (if t < 15000 then
        (case pollOnce company (response w i) of
           Inl e \<Rightarrow> Inl e
         | Inr None \<Rightarrow> pollLoop company w (Suc i) (t + 1500 + latency w i)
         | Inr (Some ceo) \<Rightarrow> Inr (Some ceo))
      else Inr None)"
  by pat_completeness auto
termination
  by (relation "measure (\<lambda>(company, w, i, t). 15000 - t)") auto

text \<open>The \<open>try\<close> block, then the function with its \<open>catch\<close>.\<close>

definition enrichBody :: "obj \<Rightarrow> world \<Rightarrow> js_error + jsval" where
  "enrichBody company w =
     bindE (dispatch w) (\<lambda>_.
     bindE (pollLoop company w 0 0) (\<lambda>ceo.
     Inr (JObj (setProp company ''ceo''
                 (case ceo of None \<Rightarrow> notFoundCeo | Some c \<Rightarrow> c)))))"

definition enrichWithSignalHire :: "obj \<Rightarrow> world \<Rightarrow> js_error + jsval" where
  "enrichWithSignalHire company w =
     (case enrichBody company w of
        Inr v \<Rightarrow> Inr v
      | Inl e \<Rightarrow> Inr (JObj (setProp company ''ceo'' errorCeo)))"

text \<open>Elapsed time at the head of turn \<open>i\<close>.\<close>

fun elapsedAt :: "world \<Rightarrow> nat \<Rightarrow> nat" where
  "elapsedAt w 0 = 0"
| "elapsedAt w (Suc i) = elapsedAt w i + 1500 + latency w i"

text \<open>A \<open>ceo\<close> object as lines 39-44 build it: the four fields, each one truthy (a value of
  the candidate or the string \<open>N/A\<close>).\<close>

definition populated :: "jsval \<Rightarrow> bool" where
  "populated ceo =
     (case ceo of
        JObj kvs \<Rightarrow>
          map fst kvs = [''name'', ''title'', ''email'', ''phone''] \<and> list_all truthy (map snd kvs)
      | _ \<Rightarrow> False)"

section \<open>searchISVs (isv-search/route.ts, lines 59-86)\<close>

text \<open>\<open>(r) => r.link && r.title\<close>\<close>

definition hasLinkAndTitle :: "jsval \<Rightarrow> js_error + bool" where
  "hasLinkAndTitle r =
     bindE (getProp r ''link'') (\<lambda>l.
       if \<not> truthy l then Inr False
       else bindE (getProp r ''title'') (\<lambda>t. Inr (truthy t)))"

text \<open>\<open>(r) => ({ name: r.title, website: r.link })\<close>\<close>

definition toCompany :: "jsval \<Rightarrow> js_error + jsval" where
  "toCompany r =
     bindE (getProp r ''title'') (\<lambda>t.
     bindE (getProp r ''link'') (\<lambda>l.
     Inr (JObj [(''name'', t), (''website'', l)])))"

text \<open>Lines 71-74: at most the first three organic results that have a link and a title.\<close>

definition extractResults :: "jsval \<Rightarrow> js_error + jsval list" where
  "extractResults serpData =
     bindE (getProp serpData ''organic_results'') (\<lambda>org.
       case jsOr org (JArr []) of
         JArr rs \<Rightarrow> bindE (jsFilter hasLinkAndTitle rs) (\<lambda>fs. jsMap toCompany (take 3 fs))
       | _ \<Rightarrow> Inl TypeError)"

text \<open>\<open>normalizeUrl(company.website)\<close>\<close>

definition websiteKey :: "jsval \<Rightarrow> js_error + string" where
  "websiteKey company = bindE (getProp company ''website'') normalizeUrl_js"

text \<open>Lines 77-83: the filter over \<open>results\<close> with the set \<open>seen\<close> it updates.\<close>

fun dedupeFilter :: "string set \<Rightarrow> jsval list \<Rightarrow> js_error + jsval list" where
  "dedupeFilter seen [] = Inr []"
| "dedupeFilter seen (company # rest) =
     (case websiteKey company of
        Inl e \<Rightarrow> Inl e
      | Inr nrm \<Rightarrow>
          if nrm = [] \<or> nrm \<in> seen then dedupeFilter seen rest
          else (case dedupeFilter (insert nrm seen) rest of
                  Inl e \<Rightarrow> Inl e
                | Inr kept \<Rightarrow> Inr (company # kept)))"

text \<open>What \<open>searchISVs\<close> sees of the outside: whether the API key is set, and what the
  SerpAPI \<open>fetch\<close> gave (a rejection, or the \<open>ok\<close> flag with the outcome of \<open>json()\<close>).\<close>

record serp_world =
  apiKeySet :: bool
  serpRes :: "js_error + (bool \<times> (js_error + jsval))"

definition searchISVs :: "serp_world \<Rightarrow> js_error + jsval list" where
  "searchISVs sw =
     (if \<not> apiKeySet sw then Inl (Thrown ''SerpAPI key is missing'')
      else bindE (serpRes sw) (\<lambda>(ok, body).
        if \<not> ok then Inl (Thrown ''Failed to fetch from SerpAPI'')
        else bindE body (\<lambda>serpData.
             bindE (extractResults serpData) (dedupeFilter {}))))"

text \<open>Deduplication as section 4.2 of the specification words it: the items whose key is
  not empty and has not occurred at an earlier position, in input order.\<close>

definition dedupe_spec :: "('a \<Rightarrow> string) \<Rightarrow> 'a list \<Rightarrow> 'a list" where
  "dedupe_spec keyFn items =
     map (\<lambda>i. items ! i)
       (filter (\<lambda>i. keyFn (items ! i) \<noteq> [] \<and> keyFn (items ! i) \<notin> keyFn ` set (take i items))
          [0..<length items])"

text \<open>The same selection when some keys are taken beforehand.\<close>

definition firstOcc :: "string set \<Rightarrow> ('a \<Rightarrow> string) \<Rightarrow> 'a list \<Rightarrow> 'a list" where
  "firstOcc seen keyFn items =
     map (\<lambda>i. items ! i)
       (filter (\<lambda>i. keyFn (items ! i) \<noteq> [] \<and> keyFn (items ! i) \<notin> seen \<union> keyFn ` set (take i items))
          [0..<length items])"

text \<open>The key of a company whose website is a string or missing.\<close>

definition keyOf :: "jsval \<Rightarrow> string" where
  "keyOf company = (case websiteKey company of Inr k \<Rightarrow> k | Inl e \<Rightarrow> [])"

section \<open>The callback sink (ceo-fetcher/app/api/signalhire/callback/route.ts)\<close>

text \<open>The module-level array \<open>responses\<close> and the files written under \<open>data/\<close>
  (name and content; the content is the payload that \<open>JSON.stringify\<close> prints).\<close>

record sink =
  responses :: "jsval list"
  backups :: "(string \<times> jsval) list"

datatype http_response = Response (status: nat) (body: jsval)

text \<open>\<open>new Date().toISOString().replace(/[:.]/g, '-')\<close> on the ISO time stamp, and the
  file name built from it.\<close>

definition backupName :: "string \<Rightarrow> string" where
  "backupName stamp =
     ''signalhire_response_''
       @ map (\<lambda>c. if c = CHR '':'' \<or> c = CHR ''.'' then CHR ''-'' else c) stamp
       @ ''.json''"

text \<open>
  \<open>POST\<close> (lines 8-28). The arguments are what \<open>request.json()\<close> delivered (a rejection for
  a body that does not parse), the time stamp, and whether \<open>writeFile\<close> succeeded.
\<close>

definition POST_callback ::
  "js_error + jsval \<Rightarrow> string \<Rightarrow> bool \<Rightarrow> sink \<Rightarrow> http_response \<times> sink" where
  "POST_callback parsed stamp writeOk s =
     (case parsed of
        Inl e \<Rightarrow>
          (Response 500 (JObj [(''status'', JStr ''error''),
                               (''message'', JStr ''Failed to process callback'')]), s)
      | Inr data \<Rightarrow>
          let s1 = s\<lparr>responses := responses s @ [data]\<rparr> in
          if writeOk then
            (Response 200 (JObj [(''status'', JStr ''success'')]),
             s1\<lparr>backups := backups s1 @ [(backupName stamp, data)]\<rparr>)
          else
            (Response 500 (JObj [(''status'', JStr ''error''),
                                 (''message'', JStr ''Failed to process callback'')]), s1))"

text \<open>\<open>GET\<close> (lines 30-33)\<close>

definition GET_callback :: "sink \<Rightarrow> http_response" where
  "GET_callback s = Response 200 (JArr (responses s))"

section \<open>Example data\<close>

text \<open>Companies, callback records, outside worlds and search results on which the
  properties below are evaluated.\<close>

definition acme :: obj where
  "acme = [(''name'', JStr ''Acme''), (''website'', JStr ''http://www.acme.com/'')]"

definition recExact :: jsval where
  "recExact =
     JObj [(''status'', JStr ''success''),
           (''candidate'',
              JObj [(''fullName'', JStr ''Ada Smith''), (''headLine'', JStr ''CEO''),
                    (''company'', JStr ''Initech''), (''website'', JStr ''acme.com''),
                    (''contacts'',
                       JArr [JObj [(''type'', JStr ''email''), (''value'', JStr ''ada@acme.com'')]])])]"

definition recNameOnly :: jsval where
  "recNameOnly =
     JObj [(''status'', JStr ''success''),
           (''candidate'',
              JObj [(''fullName'', JStr ''Bob Jones''), (''company'', JStr ''Acme Holdings''),
                    (''website'', JStr ''holdings.example'')])]"

definition recFailedWithCandidate :: jsval where
  "recFailedWithCandidate =
     JObj [(''status'', JStr ''failed''),
           (''candidate'', JObj [(''website'', JStr ''acme.com'')])]"

definition recSlash :: jsval where
  "recSlash =
     JObj [(''status'', JStr ''success''),
           (''candidate'', JObj [(''website'', JStr ''/'')])]"

definition quietWorld :: world where
  "quietWorld = \<lparr>dispatch = Inr (), response = (\<lambda>i. Inr (JArr [])), latency = (\<lambda>i. 0)\<rparr>"

definition answeringWorld :: world where
  "answeringWorld =
     \<lparr>dispatch = Inr (),
      response = (\<lambda>i. if i = 0 then Inr (JArr []) else Inr (JArr [recExact])),
      latency = (\<lambda>i. 40)\<rparr>"

definition recFailed :: jsval where
  "recFailed = JObj [(''status'', JStr ''failed''), (''item'', JStr ''nosuch.example'')]"

definition stamp0 :: string where
  "stamp0 = ''2024-05-01T10:20:30.123Z''"

definition emptySink :: sink where
  "emptySink = \<lparr>responses = [], backups = []\<rparr>"

definition mkCompany :: "string \<Rightarrow> string \<Rightarrow> jsval" where
  "mkCompany n w = JObj [(''name'', JStr n), (''website'', JStr w)]"

definition mkResult :: "string \<Rightarrow> string \<Rightarrow> jsval" where
  "mkResult t l = JObj [(''title'', JStr t), (''link'', JStr l)]"

definition fourCompanies :: "jsval list" where
  "fourCompanies =
     [mkCompany ''Acme'' ''https://www.Acme.com/'', mkCompany ''Beta'' ''beta.io'',
      mkCompany ''Acme again'' ''acme.com'', mkCompany ''Blank'' ''http://'']"

definition serpWorld0 :: serp_world where
  "serpWorld0 =
     \<lparr>apiKeySet = True,
      serpRes = Inr (True, Inr (JObj [(''organic_results'',
        JArr [mkResult ''Acme'' ''https://www.Acme.com/'',
              JObj [(''link'', JStr ''untitled.example'')],
              mkResult ''Acme again'' ''acme.com'',
              mkResult ''Beta'' ''beta.io'',
              mkResult ''Gamma'' ''gamma.dev''])]))\<rparr>"

definition cafeUpper :: string where
  "cafeUpper = ''HTTP://CAF'' @ [CHR 0xC9] @ ''.com/''"

definition cafeLower :: string where
  "cafeLower = ''caf'' @ [CHR 0xE9] @ ''.com''"

definition downWorld :: world where
  "downWorld = \<lparr>dispatch = Inl IOError, response = (\<lambda>i. Inl IOError), latency = (\<lambda>i. 0)\<rparr>"

section \<open>Facts about the normalizer\<close>

lemma lowerChar_idem: "lowerChar (lowerChar c) = lowerChar c"
  by (auto simp: lowerChar_def lowerTable_def upperLetters_def lowerLetters_def
      split: option.splits if_splits)

lemma toLowerCase_idem: "toLowerCase (toLowerCase s) = toLowerCase s"
  by (simp add: toLowerCase_def lowerChar_idem)

lemma toLowerCase_length: "length (toLowerCase s) = length s"
  by (simp add: toLowerCase_def)

lemma toLowerCase_drop: "toLowerCase (drop n s) = drop n (toLowerCase s)"
  by (simp add: toLowerCase_def drop_map)

lemma toLowerCase_butlast: "toLowerCase (butlast s) = butlast (toLowerCase s)"
  by (simp add: toLowerCase_def map_butlast)

lemma isLower_toLowerCase: "isLower (toLowerCase s)"
  by (simp add: isLower_def toLowerCase_idem)

lemma isLower_drop: "isLower s \<Longrightarrow> isLower (drop n s)"
  by (simp add: isLower_def toLowerCase_drop)

lemma isLower_butlast: "isLower s \<Longrightarrow> isLower (butlast s)"
  by (simp add: isLower_def toLowerCase_butlast)

lemma isLower_stripScheme: "isLower s \<Longrightarrow> isLower (stripScheme s)"
  by (simp add: stripScheme_def isLower_drop)

lemma isLower_stripWww: "isLower s \<Longrightarrow> isLower (stripWww s)"
  by (simp add: stripWww_def isLower_drop)

lemma isLower_stripSlash: "isLower s \<Longrightarrow> isLower (stripSlash s)"
  by (simp add: stripSlash_def isLower_butlast)

lemma isLower_normalizeUrl: "isLower (normalizeUrl s)"
  by (simp add: normalizeUrl_def isLower_stripSlash isLower_stripWww isLower_stripScheme
      isLower_toLowerCase) (simp add: isLower_def toLowerCase_def)

lemma stripScheme_length: "length (stripScheme s) \<le> length s"
  by (simp add: stripScheme_def)

lemma stripWww_length: "length (stripWww s) \<le> length s"
  by (simp add: stripWww_def)

lemma stripSlash_length: "length (stripSlash s) \<le> length s"
  by (simp add: stripSlash_def)

lemma stripScheme_short:
  "prefix ''http://'' s \<or> prefix ''https://'' s \<Longrightarrow> length (stripScheme s) < length s"
  by (auto simp: stripScheme_def prefix_def)

lemma stripWww_short: "prefix ''www.'' s \<Longrightarrow> length (stripWww s) < length s"
  by (auto simp: stripWww_def prefix_def)

lemma stripSlash_short: "endsWithSlash s \<Longrightarrow> length (stripSlash s) < length s"
  by (auto simp: stripSlash_def endsWithSlash_def)

lemma stripScheme_id:
  "\<not> prefix ''http://'' s \<Longrightarrow> \<not> prefix ''https://'' s \<Longrightarrow> stripScheme s = s"
  by (simp add: stripScheme_def)

lemma stripWww_id: "\<not> prefix ''www.'' s \<Longrightarrow> stripWww s = s"
  by (simp add: stripWww_def)

lemma stripSlash_id: "\<not> endsWithSlash s \<Longrightarrow> stripSlash s = s"
  by (auto simp: stripSlash_def endsWithSlash_def)

text \<open>The three replacements only ever shorten, so the composition leaves a string alone
  exactly when none of them fires.\<close>

lemma strip_all_fix:
  "stripSlash (stripWww (stripScheme s)) = s \<longleftrightarrow> noAffix s"
proof
  assume eq: "stripSlash (stripWww (stripScheme s)) = s"
  have c1: "length s \<le> length (stripWww (stripScheme s))"
    using stripSlash_length [of "stripWww (stripScheme s)"] eq by simp
  have c2: "length (stripWww (stripScheme s)) \<le> length (stripScheme s)"
    by (rule stripWww_length)
  have n1: "\<not> (prefix ''http://'' s \<or> prefix ''https://'' s)"
  proof
    assume "prefix ''http://'' s \<or> prefix ''https://'' s"
    then have "length (stripScheme s) < length s" by (rule stripScheme_short)
    with c1 c2 show False by simp
  qed
  then have s1: "stripScheme s = s" by (simp add: stripScheme_id)
  have n2: "\<not> prefix ''www.'' s"
  proof
    assume "prefix ''www.'' s"
    then have "length (stripWww s) < length s" by (rule stripWww_short)
    with c1 s1 show False by simp
  qed
  then have s2: "stripWww s = s" by (simp add: stripWww_id)
  have n3: "\<not> endsWithSlash s"
  proof
    assume "endsWithSlash s"
    then have "length (stripSlash s) < length s" by (rule stripSlash_short)
    with eq s1 s2 show False by simp
  qed
  show "noAffix s"
    using n1 n2 n3 by (simp add: noAffix_def)
next
  assume "noAffix s"
  then show "stripSlash (stripWww (stripScheme s)) = s"
    by (simp add: noAffix_def stripScheme_id stripWww_id stripSlash_id)
qed

lemma normalizeUrl_fix: "normalizeUrl t = t \<longleftrightarrow> isLower t \<and> noAffix t"
proof (cases "t = []")
  case True
  then show ?thesis
    by (simp add: normalizeUrl_def isLower_def toLowerCase_def noAffix_def endsWithSlash_def)
next
  case False
  show ?thesis
  proof
    assume eq: "normalizeUrl t = t"
    have low: "isLower t"
      using isLower_normalizeUrl [of t] eq by simp
    then have "toLowerCase t = t" by (simp add: isLower_def)
    with eq False have "stripSlash (stripWww (stripScheme t)) = t"
      by (simp add: normalizeUrl_def)
    with low show "isLower t \<and> noAffix t"
      by (simp add: strip_all_fix)
  next
    assume "isLower t \<and> noAffix t"
    then show "normalizeUrl t = t"
      using False by (simp add: normalizeUrl_def isLower_def strip_all_fix)
  qed
qed

lemma afterPrefix_eq:
  "afterPrefix p s = (if prefix p s then Some (drop (length p) s) else None)"
  by (induction p s rule: afterPrefix.induct) auto

lemma dropScheme_spec_eq: "dropScheme_spec s = stripScheme s"
  by (auto simp: dropScheme_spec_def stripScheme_def afterPrefix_eq prefix_def
      eval_nat_numeral)

lemma dropWww_spec_eq: "dropWww_spec s = stripWww s"
  by (simp add: dropWww_spec_def stripWww_def afterPrefix_eq eval_nat_numeral)

lemma dropTrailingSlash_spec_eq: "dropTrailingSlash_spec s = stripSlash s"
proof (cases s rule: rev_cases)
  case Nil
  then show ?thesis by (simp add: dropTrailingSlash_spec_def stripSlash_def)
next
  case (snoc ys y)
  then show ?thesis by (simp add: dropTrailingSlash_spec_def stripSlash_def)
qed

lemma normalizeUrl_refines: "normalizeUrl s = normalizeUrl_spec s"
  by (simp add: normalizeUrl_def normalizeUrl_spec_def dropScheme_spec_eq dropWww_spec_eq
      dropTrailingSlash_spec_eq)
    (simp add: toLowerCase_def stripScheme_def stripWww_def stripSlash_def)

lemma stripScheme_decomp:
  "\<exists>sch \<in> {[], ''http://'', ''https://''}. l = sch @ stripScheme l"
  by (auto simp: stripScheme_def prefix_def)

lemma stripWww_decomp: "\<exists>w \<in> {[], ''www.''}. l = w @ stripWww l"
  by (auto simp: stripWww_def prefix_def)

lemma stripSlash_decomp: "\<exists>sl \<in> {[], ''/''}. l = stripSlash l @ sl"
proof (cases "l \<noteq> [] \<and> last l = CHR ''/''")
  case True
  then have "l = butlast l @ ''/''"
    using append_butlast_last_id [of l] by simp
  with True show ?thesis by (simp add: stripSlash_def)
next
  case False
  then show ?thesis by (auto simp: stripSlash_def)
qed

text \<open>What is cut off the lower-cased input is at most one scheme, then at most one
  \<open>www.\<close>, and at most one final slash; nothing else is touched.\<close>

lemma normalizeUrl_decomp:
  "\<exists>sch \<in> {[], ''http://'', ''https://''}. \<exists>w \<in> {[], ''www.''}. \<exists>sl \<in> {[], ''/''}.
     toLowerCase s = sch @ w @ normalizeUrl s @ sl"
proof -
  let ?l = "toLowerCase s"
  obtain sch where a: "sch \<in> {[], ''http://'', ''https://''}" "?l = sch @ stripScheme ?l"
    using stripScheme_decomp [of ?l] by blast
  obtain w where b: "w \<in> {[], ''www.''}" "stripScheme ?l = w @ stripWww (stripScheme ?l)"
    using stripWww_decomp [of "stripScheme ?l"] by blast
  obtain sl where c: "sl \<in> {[], ''/''}"
      "stripWww (stripScheme ?l) = stripSlash (stripWww (stripScheme ?l)) @ sl"
    using stripSlash_decomp [of "stripWww (stripScheme ?l)"] by blast
  have n: "normalizeUrl s = stripSlash (stripWww (stripScheme ?l))"
    by (cases "s = []")
      (simp_all add: normalizeUrl_def toLowerCase_def stripScheme_def stripWww_def stripSlash_def)
  have "?l = sch @ w @ normalizeUrl s @ sl"
    using a(2) b(2) c(2) n by metis
  with a(1) b(1) c(1) show ?thesis by blast
qed

lemma normalizeUrl_js_Str: "normalizeUrl_js (JStr s) = Inr (normalizeUrl s)"
  by (cases "s = []") (simp_all add: normalizeUrl_js_def normalizeUrl_def bindE_def)

lemmas normalize_eval =
  normalizeUrl_def toLowerCase_def lowerChar_def lowerTable_def upperLetters_def
  lowerLetters_def stripScheme_def stripWww_def stripSlash_def

lemma normalizeUrl_example_full: "normalizeUrl ''https://www.Example.com/'' = ''example.com''"
  by (simp add: normalize_eval)

lemma normalizeUrl_example_bare: "normalizeUrl ''example.com'' = ''example.com''"
  by (simp add: normalize_eval)

lemma normalizeUrl_two_slashes: "normalizeUrl ''example.com//'' = ''example.com/''"
  by (simp add: normalize_eval)

lemma normalizeUrl_one_slash: "normalizeUrl ''example.com/'' = ''example.com''"
  by (simp add: normalize_eval)

lemma length_letters: "length upperLetters = length lowerLetters"
  by (simp add: upperLetters_def lowerLetters_def)

lemma lowerChar_other: "c \<notin> set upperLetters \<Longrightarrow> lowerChar c = c"
proof -
  assume "c \<notin> set upperLetters"
  then have "map_of (zip upperLetters lowerLetters) c = None"
    using length_letters by (simp add: map_of_zip_is_None)
  then show ?thesis by (simp add: lowerChar_def lowerTable_def)
qed

lemma toLowerCase_upperLetters: "toLowerCase upperLetters = lowerLetters"
  by (simp add: toLowerCase_def lowerChar_def lowerTable_def upperLetters_def lowerLetters_def)

lemma lowerChar_upper:
  "j < length upperLetters \<Longrightarrow> lowerChar (upperLetters ! j) = lowerLetters ! j"
proof -
  assume j: "j < length upperLetters"
  have "toLowerCase upperLetters ! j = lowerLetters ! j"
    by (simp add: toLowerCase_upperLetters)
  with j show ?thesis by (simp add: toLowerCase_def)
qed

lemma lowerChar_not_upper: "lowerChar c \<notin> set upperLetters"
  by (auto simp: lowerChar_def lowerTable_def upperLetters_def lowerLetters_def
      split: option.splits if_splits)

lemma set_stripScheme: "set (stripScheme l) \<subseteq> set l"
  by (auto simp: stripScheme_def dest: in_set_dropD)

lemma set_stripWww: "set (stripWww l) \<subseteq> set l"
  by (auto simp: stripWww_def dest: in_set_dropD)

lemma set_stripSlash: "set (stripSlash l) \<subseteq> set l"
  by (auto simp: stripSlash_def dest: in_set_butlastD)

lemma normalizeUrl_no_upper: "set (normalizeUrl s) \<inter> set upperLetters = {}"
proof -
  have "set (normalizeUrl s) \<subseteq> set (toLowerCase s)"
    using set_stripSlash [of "stripWww (stripScheme (toLowerCase s))"]
      set_stripWww [of "stripScheme (toLowerCase s)"] set_stripScheme [of "toLowerCase s"]
    by (auto simp: normalizeUrl_def)
  moreover have "set (toLowerCase s) \<inter> set upperLetters = {}"
    using lowerChar_not_upper by (auto simp: toLowerCase_def)
  ultimately show ?thesis by blast
qed

lemma toLowerCase_nth_other:
  "i < length s \<Longrightarrow> s ! i \<notin> set upperLetters \<Longrightarrow> toLowerCase s ! i = s ! i"
  by (simp add: toLowerCase_def lowerChar_other)

lemma normalizeUrl_cafe: "normalizeUrl cafeUpper = cafeLower"
  by (simp add: cafeUpper_def cafeLower_def normalize_eval)

section \<open>Claims about the normalizer\<close>

text \<open>
  Claim C4, as the specification states it: \<open>normalizeUrl\<close> is idempotent on every string.
  The code runs each replacement once, so an input carrying an affix twice keeps one copy:
  \<open>example.com//\<close> normalizes to \<open>example.com/\<close>, which normalizes further to
  \<open>example.com\<close>.
\<close>

theorem normalizeUrl_not_idempotent:
  "normalizeUrl (normalizeUrl ''example.com//'') \<noteq> normalizeUrl ''example.com//''"
  by (simp add: normalizeUrl_two_slashes normalizeUrl_one_slash)

text \<open>
  Claim C4, amended: a second application of \<open>normalizeUrl\<close> changes nothing exactly when
  the first result no longer starts with \<open>http://\<close>, \<open>https://\<close> or \<open>www.\<close> and no
  longer ends with a slash; the empty string maps to itself.
\<close>

theorem normalizeUrl_idempotent_iff:
  "(normalizeUrl (normalizeUrl s) = normalizeUrl s \<longleftrightarrow> noAffix (normalizeUrl s))
   \<and> normalizeUrl [] = []"
proof
  show "normalizeUrl (normalizeUrl s) = normalizeUrl s \<longleftrightarrow> noAffix (normalizeUrl s)"
    by (simp add: normalizeUrl_fix isLower_normalizeUrl)
  show "normalizeUrl [] = []"
    by (simp add: normalizeUrl_def)
qed

theorem normalizeUrl_idempotent_iff_witness:
  "normalizeUrl (normalizeUrl ''https://www.Example.com/'') = normalizeUrl ''https://www.Example.com/''
   \<and> noAffix (normalizeUrl ''https://www.Example.com/'')"
  using normalizeUrl_idempotent_iff [of "''https://www.Example.com/''"]
  by (simp add: normalizeUrl_example_full noAffix_def endsWithSlash_def)

text \<open>
  Claim C5: \<open>normalizeUrl\<close> maps \<open>null\<close>, \<open>undefined\<close> and the empty string to the empty
  string; on a string it is the specification's normalizer (lower-case, drop one leading
  scheme, one leading \<open>www.\<close>, one trailing slash). Lower-casing keeps the length, sends
  every upper-case letter to its lower-case partner and leaves every other character
  alone, so the result has no upper-case letter; the lower-cased input is the result with
  at most the three affixes around it; of two trailing slashes one stays; and
  \<open>https://www.Example.com/\<close> and \<open>example.com\<close> have the same normal form.
\<close>

theorem normalizeUrl_contract:
  "normalizeUrl_js JNull = Inr []
   \<and> normalizeUrl_js JUndefined = Inr []
   \<and> normalizeUrl_js (JStr []) = Inr []
   \<and> normalizeUrl_js (JStr s) = Inr (normalizeUrl s)
   \<and> normalizeUrl s = normalizeUrl_spec s
   \<and> toLowerCase upperLetters = lowerLetters
   \<and> length (toLowerCase s) = length s
   \<and> (\<forall>i < length s. \<forall>j < length upperLetters.
         s ! i = upperLetters ! j \<longrightarrow> toLowerCase s ! i = lowerLetters ! j)
   \<and> (\<forall>i < length s. s ! i \<notin> set upperLetters \<longrightarrow> toLowerCase s ! i = s ! i)
   \<and> set (normalizeUrl s) \<inter> set upperLetters = {}
   \<and> (\<exists>sch \<in> {[], ''http://'', ''https://''}. \<exists>w \<in> {[], ''www.''}. \<exists>sl \<in> {[], ''/''}.
        toLowerCase s = sch @ w @ normalizeUrl s @ sl)
   \<and> normalizeUrl ''example.com//'' = ''example.com/''
   \<and> normalizeUrl ''https://www.Example.com/'' = normalizeUrl ''example.com''"
proof -
  have "normalizeUrl_js JNull = Inr []" "normalizeUrl_js JUndefined = Inr []"
    "normalizeUrl_js (JStr []) = Inr []"
    by (simp_all add: normalizeUrl_js_def)
  moreover have "normalizeUrl ''https://www.Example.com/'' = normalizeUrl ''example.com''"
    by (simp add: normalizeUrl_example_full normalizeUrl_example_bare)
  moreover have "\<forall>i < length s. \<forall>j < length upperLetters.
         s ! i = upperLetters ! j \<longrightarrow> toLowerCase s ! i = lowerLetters ! j"
    by (simp add: toLowerCase_def lowerChar_upper)
  moreover have "\<forall>i < length s. s ! i \<notin> set upperLetters \<longrightarrow> toLowerCase s ! i = s ! i"
    by (simp add: toLowerCase_nth_other)
  ultimately show ?thesis
    using normalizeUrl_js_Str [of s] normalizeUrl_refines [of s] toLowerCase_upperLetters
      toLowerCase_length [of s] normalizeUrl_no_upper [of s]
      normalizeUrl_decomp [of s] normalizeUrl_two_slashes
    by blast
qed

theorem normalizeUrl_contract_witness:
  "normalizeUrl_js (JStr ''HTTP://WWW.Acme.io/'') = Inr ''acme.io''
   \<and> normalizeUrl_spec ''HTTP://WWW.Acme.io/'' = ''acme.io''
   \<and> normalizeUrl_js (JStr cafeUpper) = Inr cafeLower
   \<and> normalizeUrl_spec cafeUpper = cafeLower"
proof -
  have "normalizeUrl ''HTTP://WWW.Acme.io/'' = ''acme.io''"
    by (simp add: normalize_eval)
  then show ?thesis
    using normalizeUrl_contract [of "''HTTP://WWW.Acme.io/''"] normalizeUrl_contract [of cafeUpper]
      normalizeUrl_cafe
    by simp
qed


section \<open>Facts about find and the matcher\<close>

lemma jsFind_Some_iff:
  "jsFind p xs = Inr (Some r) \<longleftrightarrow>
     (\<exists>pre post. xs = pre @ r # post \<and> p r = Inr True \<and> (\<forall>x \<in> set pre. p x = Inr False))"
proof (induction xs)
  case Nil
  then show ?case by simp
next
  case (Cons x xs)
  show ?case
  proof (cases "p x")
    case (Inl e)
    have "\<not> (\<exists>pre post. x # xs = pre @ r # post \<and> p r = Inr True \<and> (\<forall>y \<in> set pre. p y = Inr False))"
    proof
      assume "\<exists>pre post. x # xs = pre @ r # post \<and> p r = Inr True \<and> (\<forall>y \<in> set pre. p y = Inr False)"
      then obtain pre post where h: "x # xs = pre @ r # post" "p r = Inr True"
        "\<forall>y \<in> set pre. p y = Inr False" by blast
      show False
      proof (cases pre)
        case Nil
        with h Inl show False by simp
      next
        case (Cons a pre')
        with h Inl show False by simp
      qed
    qed
    with Inl show ?thesis by simp
  next
    case (Inr b)
    show ?thesis
    proof (cases b)
      case True
      have "(\<exists>pre post. x # xs = pre @ r # post \<and> p r = Inr True \<and> (\<forall>y \<in> set pre. p y = Inr False))
            \<longleftrightarrow> r = x"
      proof
        assume "\<exists>pre post. x # xs = pre @ r # post \<and> p r = Inr True \<and> (\<forall>y \<in> set pre. p y = Inr False)"
        then obtain pre post where h: "x # xs = pre @ r # post" "p r = Inr True"
          "\<forall>y \<in> set pre. p y = Inr False" by blast
        show "r = x"
        proof (cases pre)
          case Nil
          with h show ?thesis by simp
        next
          case (Cons a pre')
          with h Inr True show ?thesis by simp
        qed
      next
        assume "r = x"
        then have "x # xs = [] @ r # xs \<and> p r = Inr True \<and> (\<forall>y \<in> set []. p y = Inr False)"
          using Inr True by simp
        then show "\<exists>pre post. x # xs = pre @ r # post \<and> p r = Inr True \<and> (\<forall>y \<in> set pre. p y = Inr False)"
          by blast
      qed
      with Inr True show ?thesis by auto
    next
      case False
      have "(\<exists>pre post. x # xs = pre @ r # post \<and> p r = Inr True \<and> (\<forall>y \<in> set pre. p y = Inr False))
            \<longleftrightarrow> (\<exists>pre post. xs = pre @ r # post \<and> p r = Inr True \<and> (\<forall>y \<in> set pre. p y = Inr False))"
      proof
        assume "\<exists>pre post. x # xs = pre @ r # post \<and> p r = Inr True \<and> (\<forall>y \<in> set pre. p y = Inr False)"
        then obtain pre post where h: "x # xs = pre @ r # post" "p r = Inr True"
          "\<forall>y \<in> set pre. p y = Inr False" by blast
        show "\<exists>pre post. xs = pre @ r # post \<and> p r = Inr True \<and> (\<forall>y \<in> set pre. p y = Inr False)"
        proof (cases pre)
          case Nil
          with h Inr False show ?thesis by simp
        next
          case (Cons a pre')
          with h have "xs = pre' @ r # post \<and> p r = Inr True \<and> (\<forall>y \<in> set pre'. p y = Inr False)"
            by simp
          then show ?thesis by blast
        qed
      next
        assume "\<exists>pre post. xs = pre @ r # post \<and> p r = Inr True \<and> (\<forall>y \<in> set pre. p y = Inr False)"
        then obtain pre post where h: "xs = pre @ r # post" "p r = Inr True"
          "\<forall>y \<in> set pre. p y = Inr False" by blast
        then have "x # xs = (x # pre) @ r # post \<and> p r = Inr True \<and> (\<forall>y \<in> set (x # pre). p y = Inr False)"
          using Inr False by simp
        then show "\<exists>pre post. x # xs = pre @ r # post \<and> p r = Inr True \<and> (\<forall>y \<in> set pre. p y = Inr False)"
          by blast
      qed
      with Inr False Cons.IH show ?thesis by simp
    qed
  qed
qed

lemma jsFind_None_iff:
  "jsFind p xs = Inr None \<longleftrightarrow> (\<forall>x \<in> set xs. p x = Inr False)"
  by (induction xs) (auto split: sum.splits)


lemma normalizeUrl_js_Inr_iff:
  "normalizeUrl_js v = Inr a \<longleftrightarrow>
     (\<not> truthy v \<and> a = []) \<or> (\<exists>s. v = JStr s \<and> s \<noteq> [] \<and> a = normalizeUrl s)"
  by (cases v) (auto simp: normalizeUrl_js_def bindE_def normalizeUrl_def)

lemma exactPart_True_iff: "exactPart company cand = Inr True \<longleftrightarrow> exactRule company cand"
proof (cases "getProp cand ''website''")
  case (Inl e)
  then show ?thesis by (simp add: exactPart_def exactRule_def bindE_def)
next
  case (Inr w)
  show ?thesis
  proof (cases w)
    case (JStr s)
    with Inr show ?thesis
      by (cases "normalizeUrl_js (fieldOf company ''website'')")
        (auto simp: exactPart_def exactRule_def bindE_def normalizeUrl_js_Str)
  qed (use Inr in \<open>auto simp: exactPart_def exactRule_def bindE_def normalizeUrl_js_def\<close>)
qed

lemma exactPart_False_iff: "exactPart company cand = Inr False \<longleftrightarrow> exactDeclined company cand"
proof (cases "getProp cand ''website''")
  case (Inl e)
  then show ?thesis by (simp add: exactPart_def exactDeclined_def bindE_def)
next
  case (Inr w)
  show ?thesis
  proof (cases w)
    case (JStr s)
    with Inr show ?thesis
      by (cases "normalizeUrl_js (fieldOf company ''website'')")
        (auto simp: exactPart_def exactDeclined_def bindE_def normalizeUrl_js_Str)
  qed (use Inr in \<open>auto simp: exactPart_def exactDeclined_def bindE_def normalizeUrl_js_def\<close>)
qed

lemma fallbackPart_True_iff:
  "fallbackPart company cand = Inr True \<longleftrightarrow> fallbackRule company cand"
proof (cases "getProp cand ''company''")
  case (Inl e)
  then show ?thesis by (simp add: fallbackPart_def fallbackRule_def bindE_def)
next
  case (Inr cc)
  show ?thesis
  proof (cases cc)
    case (JStr c)
    with Inr show ?thesis
      by (cases "fieldOf company ''name''")
        (auto simp: fallbackPart_def fallbackRule_def bindE_def)
  qed (use Inr in \<open>auto simp: fallbackPart_def fallbackRule_def bindE_def\<close>)
qed

lemma matchRecord_True_iff:
  "matchRecord company r = Inr True \<longleftrightarrow>
     (\<exists>cand. getProp r ''candidate'' = Inr cand \<and> truthy cand \<and>
        (exactRule company cand \<or> (exactDeclined company cand \<and> fallbackRule company cand)))"
proof (cases "getProp r ''candidate''")
  case (Inl e)
  then show ?thesis by (simp add: matchRecord_def bindE_def)
next
  case (Inr cand)
  show ?thesis
  proof (cases "truthy cand")
    case False
    with Inr show ?thesis by (simp add: matchRecord_def bindE_def)
  next
    case True
    show ?thesis
    proof (cases "exactPart company cand")
      case (Inl e)
      then have "\<not> exactRule company cand" "\<not> exactDeclined company cand"
        using exactPart_True_iff [of company cand] exactPart_False_iff [of company cand] by simp_all
      with Inl Inr True show ?thesis by (simp add: matchRecord_def bindE_def)
    next
      case (Inr x)
      note xp = this
      show ?thesis
      proof (cases x)
        case True
        then have "exactRule company cand"
          using xp exactPart_True_iff [of company cand] by simp
        with xp True \<open>truthy cand\<close> \<open>getProp r ''candidate'' = Inr cand\<close> show ?thesis
          by (simp add: matchRecord_def bindE_def)
      next
        case False
        then have "\<not> exactRule company cand" "exactDeclined company cand"
          using xp exactPart_True_iff [of company cand] exactPart_False_iff [of company cand]
          by simp_all
        with xp False \<open>truthy cand\<close> \<open>getProp r ''candidate'' = Inr cand\<close> show ?thesis
          by (simp add: matchRecord_def bindE_def fallbackPart_True_iff)
      qed
    qed
  qed
qed

lemma matchRecord_no_candidate:
  "getProp r ''candidate'' = Inr cand \<Longrightarrow> \<not> truthy cand \<Longrightarrow> matchRecord company r = Inr False"
  by (simp add: matchRecord_def bindE_def)

lemma jsFind_Inl_iff:
  "jsFind p xs = Inl e \<longleftrightarrow>
     (\<exists>pre x post. xs = pre @ x # post \<and> p x = Inl e \<and> (\<forall>y \<in> set pre. p y = Inr False))"
proof (induction xs)
  case Nil
  then show ?case by simp
next
  case (Cons a xs)
  let ?R = "\<lambda>zs. \<exists>pre x post. zs = pre @ x # post \<and> p x = Inl e \<and> (\<forall>y \<in> set pre. p y = Inr False)"
  show ?case
  proof (cases "p a")
    case (Inl e')
    have "?R (a # xs) \<longleftrightarrow> e' = e"
    proof
      assume "?R (a # xs)"
      then obtain pre x post where h: "a # xs = pre @ x # post" "p x = Inl e"
        "\<forall>y \<in> set pre. p y = Inr False" by blast
      show "e' = e"
      proof (cases pre)
        case Nil
        with h Inl show ?thesis by simp
      next
        case (Cons b pre')
        with h Inl show ?thesis by simp
      qed
    next
      assume "e' = e"
      with Inl have "a # xs = [] @ a # xs \<and> p a = Inl e \<and> (\<forall>y \<in> set []. p y = Inr False)"
        by simp
      then show "?R (a # xs)" by blast
    qed
    with Inl show ?thesis by auto
  next
    case (Inr b)
    show ?thesis
    proof (cases b)
      case True
      have "\<not> ?R (a # xs)"
      proof
        assume "?R (a # xs)"
        then obtain pre x post where h: "a # xs = pre @ x # post" "p x = Inl e"
          "\<forall>y \<in> set pre. p y = Inr False" by blast
        show False
        proof (cases pre)
          case Nil
          with h Inr show False by simp
        next
          case (Cons b pre')
          with h Inr True show False by simp
        qed
      qed
      with Inr True show ?thesis by simp
    next
      case False
      have "?R (a # xs) \<longleftrightarrow> ?R xs"
      proof
        assume "?R (a # xs)"
        then obtain pre x post where h: "a # xs = pre @ x # post" "p x = Inl e"
          "\<forall>y \<in> set pre. p y = Inr False" by blast
        show "?R xs"
        proof (cases pre)
          case Nil
          with h Inr show ?thesis by simp
        next
          case (Cons b pre')
          with h have "xs = pre' @ x # post \<and> p x = Inl e \<and> (\<forall>y \<in> set pre'. p y = Inr False)"
            by simp
          then show ?thesis by blast
        qed
      next
        assume "?R xs"
        then obtain pre x post where h: "xs = pre @ x # post" "p x = Inl e"
          "\<forall>y \<in> set pre. p y = Inr False" by blast
        then have "a # xs = (a # pre) @ x # post \<and> p x = Inl e
            \<and> (\<forall>y \<in> set (a # pre). p y = Inr False)"
          using Inr False by simp
        then show "?R (a # xs)" by blast
      qed
      with Inr False Cons.IH show ?thesis by simp
    qed
  qed
qed

lemma jsFind_total:
  "\<forall>x \<in> set xs. \<exists>b. p x = Inr b \<Longrightarrow> jsFind p xs = Inr (find (\<lambda>x. p x = Inr True) xs)"
proof (induction xs)
  case Nil
  then show ?case by simp
next
  case (Cons a xs)
  then obtain b where "p a = Inr b" by auto
  with Cons show ?case by simp
qed

lemma normalizeUrl_js_ok: "strOrFalsy v \<Longrightarrow> \<exists>a. normalizeUrl_js v = Inr a"
  by (cases v) (auto simp: strOrFalsy_def normalizeUrl_js_def bindE_def)

lemma toLowerCase_js_ok: "strOrFalsy v \<Longrightarrow> truthy v \<Longrightarrow> \<exists>a. toLowerCase_js v = Inr a"
  by (cases v) (auto simp: strOrFalsy_def)

lemma exactPart_ok:
  assumes "wfCompany company" "getProp cand ''website'' = Inr w" "strOrFalsy w"
  shows "\<exists>b. exactPart company cand = Inr b"
proof (cases "truthy w")
  case False
  with assms(2) have "exactPart company cand = Inr False"
    by (simp add: exactPart_def bindE_def)
  then show ?thesis by blast
next
  case True
  obtain a where a: "normalizeUrl_js w = Inr a"
    using normalizeUrl_js_ok [OF assms(3)] by blast
  obtain c where c: "normalizeUrl_js (fieldOf company ''website'') = Inr c"
    using normalizeUrl_js_ok assms(1) by (auto simp: wfCompany_def)
  from True assms(2) a c show ?thesis by (simp add: exactPart_def bindE_def)
qed

lemma fallbackPart_ok:
  assumes "wfCompany company" "getProp cand ''company'' = Inr n" "strOrFalsy n"
  shows "\<exists>b. fallbackPart company cand = Inr b"
proof (cases "truthy n \<and> truthy (fieldOf company ''name'')")
  case False
  with assms(2) have "fallbackPart company cand = Inr False"
    by (auto simp: fallbackPart_def bindE_def)
  then show ?thesis by blast
next
  case True
  obtain a where a: "toLowerCase_js n = Inr a"
    using toLowerCase_js_ok [OF assms(3)] True by blast
  obtain c where c: "toLowerCase_js (fieldOf company ''name'') = Inr c"
    using toLowerCase_js_ok True assms(1) by (auto simp: wfCompany_def)
  from True assms(2) a c show ?thesis by (simp add: fallbackPart_def bindE_def)
qed

lemma matchRecord_ok:
  assumes "wfCompany company" "wfRecord r"
  shows "\<exists>b. matchRecord company r = Inr b"
proof -
  obtain c where c: "getProp r ''candidate'' = Inr c"
    using assms(2) by (auto simp: wfRecord_def split: sum.splits)
  show ?thesis
  proof (cases "truthy c")
    case False
    with c have "matchRecord company r = Inr False"
      by (simp add: matchRecord_def bindE_def)
    then show ?thesis by blast
  next
    case True
    with c assms(2) obtain w n where w: "getProp c ''website'' = Inr w" "strOrFalsy w"
      and n: "getProp c ''company'' = Inr n" "strOrFalsy n"
      by (auto simp: wfRecord_def split: sum.splits)
    obtain x where x: "exactPart company c = Inr x"
      using exactPart_ok [OF assms(1) w] by blast
    obtain y where y: "fallbackPart company c = Inr y"
      using fallbackPart_ok [OF assms(1) n] by blast
    from c True x y have "matchRecord company r = Inr (x \<or> y)"
      by (cases x) (simp_all add: matchRecord_def bindE_def)
    then show ?thesis by blast
  qed
qed

lemma findMatch_wf:
  assumes "wfCompany company" "\<forall>r \<in> set rs. wfRecord r"
  shows "findMatch company (JArr rs) = Inr (find (\<lambda>r. matchRecord company r = Inr True) rs)"
proof -
  have "\<forall>r \<in> set rs. \<exists>b. matchRecord company r = Inr b"
    using assms matchRecord_ok by blast
  then show ?thesis by (simp add: findMatch_def jsFind_total)
qed

lemmas match_eval =
  matchRecord_def exactPart_def fallbackPart_def bindE_def fieldOf_def normalizeUrl_js_def
  normalize_eval

lemma matchRecord_acme_recExact: "matchRecord acme recExact = Inr True"
  by (simp add: acme_def recExact_def match_eval)

lemma matchRecord_acme_recNameOnly: "matchRecord acme recNameOnly = Inr True"
  by (simp add: acme_def recNameOnly_def match_eval)

lemma recNameOnly_not_exact:
  "getProp recNameOnly ''candidate'' = Inr c \<Longrightarrow> \<not> exactRule acme c"
  by (auto simp: acme_def recNameOnly_def exactRule_def match_eval)

lemma recExact_exact:
  "getProp recExact ''candidate'' = Inr c \<Longrightarrow> exactRule acme c"
  by (auto simp: acme_def recExact_def exactRule_def match_eval)

section \<open>Claims about the matcher\<close>

text \<open>
  Claim C1 says that the matcher considers only records with \<open>status = success\<close>. The
  callback never reads \<open>status\<close>: a record marked \<open>failed\<close> that carries a candidate with the
  requested website is matched, and is returned ahead of the successful record behind it.
\<close>

theorem matchRecord_ignores_status:
  "getProp recFailedWithCandidate ''status'' = Inr (JStr ''failed'')
   \<and> matchRecord acme recFailedWithCandidate = Inr True
   \<and> findMatch acme (JArr [recFailedWithCandidate, recExact]) = Inr (Some recFailedWithCandidate)"
proof -
  have "matchRecord acme recFailedWithCandidate = Inr True"
    by (simp add: acme_def recFailedWithCandidate_def match_eval)
  then show ?thesis
    by (simp add: findMatch_def) (simp add: recFailedWithCandidate_def fieldOf_def)
qed

text \<open>
  Claim C6, as the specification states it: for every snapshot the first record satisfying a
  rule is returned, and none when no record matches. The sink stores any parsed body, so a
  snapshot can hold \<open>null\<close>; there \<open>r.candidate\<close> throws, the scan ends, and neither the
  matching record behind it nor none is returned.
\<close>

theorem findMatch_null_record:
  "matchRecord acme recExact = Inr True
   \<and> findMatch acme (JArr [JNull, recExact]) = Inl TypeError
   \<and> findMatch acme (JArr [JNull]) = Inl TypeError"
  by (simp add: matchRecord_acme_recExact findMatch_def) (simp add: matchRecord_def bindE_def)

text \<open>
  Claim C6, amended: the matcher returns a record exactly when that record satisfies a match
  rule and every record before it in the snapshot was examined and declined, whichever rule
  it is; it returns none exactly when every record is declined; it throws exactly when the
  callback throws on a record and every record before that one was declined. On a query
  whose name and website are strings or falsy and a snapshot of records that are not
  \<open>null\<close> and whose candidate fields are strings or falsy, it never throws and returns the
  first matching record, or none.
\<close>

theorem findMatch_first:
  "(findMatch company (JArr rs) = Inr (Some r) \<longleftrightarrow>
      (\<exists>pre post. rs = pre @ r # post \<and> matchRecord company r = Inr True
         \<and> (\<forall>x \<in> set pre. matchRecord company x = Inr False)))
   \<and> (findMatch company (JArr rs) = Inr None \<longleftrightarrow>
        (\<forall>x \<in> set rs. matchRecord company x = Inr False))
   \<and> (findMatch company (JArr rs) = Inl e \<longleftrightarrow>
        (\<exists>pre x post. rs = pre @ x # post \<and> matchRecord company x = Inl e
           \<and> (\<forall>y \<in> set pre. matchRecord company y = Inr False)))
   \<and> (wfCompany company \<and> (\<forall>x \<in> set rs. wfRecord x) \<longrightarrow>
        findMatch company (JArr rs)
          = Inr (find (\<lambda>x. matchRecord company x = Inr True) rs))"
  using findMatch_wf [of company rs]
  by (simp add: findMatch_def jsFind_Some_iff jsFind_None_iff jsFind_Inl_iff)

theorem findMatch_first_witness:
  "findMatch acme (JArr [recSlash, recNameOnly, recExact]) = Inr (Some recNameOnly)
   \<and> (\<exists>c. getProp recNameOnly ''candidate'' = Inr c \<and> \<not> exactRule acme c)
   \<and> (\<exists>c. getProp recExact ''candidate'' = Inr c \<and> exactRule acme c)
   \<and> matchRecord acme recExact = Inr True
   \<and> findMatch acme (JArr [recSlash]) = Inr None
   \<and> find (\<lambda>x. matchRecord acme x = Inr True) [recSlash, recNameOnly, recExact]
       = Some recNameOnly"
proof -
  have s: "matchRecord acme recSlash = Inr False"
    by (simp add: acme_def recSlash_def match_eval)
  have "[recSlash, recNameOnly, recExact] = [recSlash] @ recNameOnly # [recExact]
        \<and> matchRecord acme recNameOnly = Inr True
        \<and> (\<forall>x \<in> set [recSlash]. matchRecord acme x = Inr False)"
    using s matchRecord_acme_recNameOnly by simp
  then have a: "findMatch acme (JArr [recSlash, recNameOnly, recExact]) = Inr (Some recNameOnly)"
    using findMatch_first [of acme "[recSlash, recNameOnly, recExact]" recNameOnly] by blast
  have b: "findMatch acme (JArr [recSlash]) = Inr None"
    using findMatch_first [of acme "[recSlash]"] s by simp
  have c: "\<exists>c. getProp recNameOnly ''candidate'' = Inr c \<and> \<not> exactRule acme c"
    by (simp add: recNameOnly_def acme_def exactRule_def match_eval)
  have d: "\<exists>c. getProp recExact ''candidate'' = Inr c \<and> exactRule acme c"
    by (simp add: recExact_def acme_def exactRule_def match_eval)
  have w: "wfCompany acme \<and> (\<forall>x \<in> set [recSlash, recNameOnly, recExact]. wfRecord x)"
    by (simp add: wfCompany_def wfRecord_def strOrFalsy_def acme_def recSlash_def
        recNameOnly_def recExact_def fieldOf_def)
  have "findMatch acme (JArr [recSlash, recNameOnly, recExact])
      = Inr (find (\<lambda>x. matchRecord acme x = Inr True) [recSlash, recNameOnly, recExact])"
    using findMatch_first [of acme "[recSlash, recNameOnly, recExact]"] w by blast
  with a have f: "find (\<lambda>x. matchRecord acme x = Inr True) [recSlash, recNameOnly, recExact]
       = Some recNameOnly" by simp
  from a b c d f matchRecord_acme_recExact show ?thesis by simp
qed



section \<open>Facts about the waiter\<close>

lemma truthy_jsOr_NA: "truthy (jsOr v (JStr ''N/A''))"
  by (simp add: jsOr_def)

lemma buildCeo_populated: "buildCeo cand = Inr ceo \<Longrightarrow> populated ceo"
  by (auto simp: buildCeo_def bindE_def Let_def populated_def truthy_jsOr_NA split: sum.splits)

lemma pollOnce_populated: "pollOnce company res = Inr (Some ceo) \<Longrightarrow> populated ceo"
  by (auto simp: pollOnce_def bindE_def split: sum.splits option.splits if_splits
      dest: buildCeo_populated)

lemma pollLoop_populated: "pollLoop company w i t = Inr (Some ceo) \<Longrightarrow> populated ceo"
proof (induction company w i t rule: pollLoop.induct)
  case (1 company w i t)
  show ?case
  proof (cases "t < 15000")
    case False
    with "1.prems" show ?thesis by simp
  next
    case True
    show ?thesis
    proof (cases "pollOnce company (response w i)")
      case (Inl e)
      with True "1.prems" show ?thesis by simp
    next
      case (Inr r)
      show ?thesis
      proof (cases r)
        case None
        with True Inr "1.prems" "1.IH" show ?thesis by simp
      next
        case (Some c)
        with True Inr "1.prems" have "c = ceo" by simp
        with Inr Some show ?thesis using pollOnce_populated by blast
      qed
    qed
  qed
qed

lemma pollLoop_timeout:
  "(\<forall>j. elapsedAt w j < 15000 \<longrightarrow> pollOnce company (response w j) = Inr None)
   \<Longrightarrow> t = elapsedAt w i \<Longrightarrow> pollLoop company w i t = Inr None"
proof (induction company w i t rule: pollLoop.induct)
  case (1 company w i t)
  show ?case
  proof (cases "t < 15000")
    case False
    then show ?thesis by simp
  next
    case True
    with "1.prems" have p: "pollOnce company (response w i) = Inr None" by simp
    have "pollLoop company w (Suc i) (t + 1500 + latency w i) = Inr None"
      using "1.IH" [OF True p refl] "1.prems" by simp
    with True p show ?thesis by simp
  qed
qed

lemma pollOnce_no_match:
  "response w i = Inr snap \<Longrightarrow> findMatch company snap = Inr None
   \<Longrightarrow> pollOnce company (response w i) = Inr None"
  by (simp add: pollOnce_def bindE_def)

lemma enrich_shape:
  "\<exists>ceo. enrichWithSignalHire company w = Inr (JObj (setProp company ''ceo'' ceo))
         \<and> (ceo = notFoundCeo \<or> ceo = errorCeo \<or> populated ceo)"
proof (cases "enrichBody company w")
  case (Inl e)
  then have "enrichWithSignalHire company w = Inr (JObj (setProp company ''ceo'' errorCeo))"
    by (simp add: enrichWithSignalHire_def)
  then show ?thesis by blast
next
  case (Inr v)
  then obtain r where d: "dispatch w = Inr ()" and l: "pollLoop company w 0 0 = Inr r"
    and v: "v = JObj (setProp company ''ceo'' (case r of None \<Rightarrow> notFoundCeo | Some c \<Rightarrow> c))"
    by (auto simp: enrichBody_def bindE_def split: sum.splits)
  show ?thesis
  proof (cases r)
    case None
    with Inr v
    have "enrichWithSignalHire company w = Inr (JObj (setProp company ''ceo'' notFoundCeo))"
      by (simp add: enrichWithSignalHire_def)
    then show ?thesis by blast
  next
    case (Some c)
    with l have "populated c" using pollLoop_populated by blast
    moreover from Inr v Some
    have "enrichWithSignalHire company w = Inr (JObj (setProp company ''ceo'' c))"
      by (simp add: enrichWithSignalHire_def)
    ultimately show ?thesis by blast
  qed
qed

lemma enrich_timeout:
  assumes "dispatch w = Inr ()"
    and "\<forall>i. elapsedAt w i < 15000 \<longrightarrow>
           (\<exists>snap. response w i = Inr snap \<and> findMatch company snap = Inr None)"
  shows "enrichWithSignalHire company w = Inr (JObj (setProp company ''ceo'' notFoundCeo))"
proof -
  have "\<forall>j. elapsedAt w j < 15000 \<longrightarrow> pollOnce company (response w j) = Inr None"
    using assms(2) pollOnce_no_match by blast
  then have "pollLoop company w 0 (elapsedAt w 0) = Inr None"
    using pollLoop_timeout by blast
  then show ?thesis
    using assms(1) by (simp add: enrichWithSignalHire_def enrichBody_def bindE_def)
qed

lemma enrich_dispatch_fails:
  "dispatch w = Inl e \<Longrightarrow>
     enrichWithSignalHire company w = Inr (JObj (setProp company ''ceo'' errorCeo))"
  by (simp add: enrichWithSignalHire_def enrichBody_def bindE_def)

lemma sentinels_distinct: "errorCeo \<noteq> notFoundCeo"
  by (simp add: errorCeo_def notFoundCeo_def)

lemma populated_not_sentinel: "populated ceo \<Longrightarrow> ceo \<noteq> notFoundCeo \<and> ceo \<noteq> errorCeo"
  by (auto simp: populated_def notFoundCeo_def errorCeo_def)

lemma elapsedAt_ge: "1500 * i \<le> elapsedAt w i"
  by (induction i) simp_all


lemma fieldOf_setProp_other: "k \<noteq> k' \<Longrightarrow> fieldOf (setProp kvs k' v) k = fieldOf kvs k"
  by (induction kvs) (auto simp: fieldOf_def)

lemma fieldOf_setProp_same: "fieldOf (setProp kvs k v) k = v"
  by (induction kvs) (auto simp: fieldOf_def)

lemma keys_setProp: "set (map fst (setProp kvs k v)) = insert k (set (map fst kvs))"
proof (induction kvs)
  case Nil
  then show ?case by simp
next
  case (Cons p kvs)
  obtain a b where p: "p = (a, b)" by (cases p)
  show ?case
  proof (cases "a = k")
    case True
    with p show ?thesis by auto
  next
    case False
    with p Cons.IH show ?thesis by auto
  qed
qed

lemma setProp_fresh: "k \<notin> set (map fst kvs) \<Longrightarrow> setProp kvs k v = kvs @ [(k, v)]"
  by (induction kvs) auto

lemma elapsedAt_quiet: "elapsedAt quietWorld i = 1500 * i"
  by (induction i) (simp_all add: quietWorld_def)

lemma enrich_quiet:
  "enrichWithSignalHire company quietWorld = Inr (JObj (setProp company ''ceo'' notFoundCeo))"
proof (rule enrich_timeout)
  show "dispatch quietWorld = Inr ()" by (simp add: quietWorld_def)
  show "\<forall>i. elapsedAt quietWorld i < 15000 \<longrightarrow>
          (\<exists>snap. response quietWorld i = Inr snap \<and> findMatch company snap = Inr None)"
    by (simp add: quietWorld_def findMatch_def)
qed

lemma enrich_answering:
  "enrichWithSignalHire acme answeringWorld =
     Inr (JObj (acme @ [(''ceo'',
        JObj [(''name'', JStr ''Ada Smith''), (''title'', JStr ''CEO''),
              (''email'', JStr ''ada@acme.com''), (''phone'', JStr ''N/A'')])]))"
proof -
  have m: "findMatch acme (JArr [recExact]) = Inr (Some recExact)"
    by (simp add: findMatch_def matchRecord_acme_recExact)
  have p0: "pollOnce acme (Inr (JArr [])) = Inr None"
    by (simp add: pollOnce_def bindE_def findMatch_def)
  have b: "buildCeo (JObj [(''fullName'', JStr ''Ada Smith''), (''headLine'', JStr ''CEO''),
                    (''company'', JStr ''Initech''), (''website'', JStr ''acme.com''),
                    (''contacts'',
                       JArr [JObj [(''type'', JStr ''email''), (''value'', JStr ''ada@acme.com'')]])])
           = Inr (JObj [(''name'', JStr ''Ada Smith''), (''title'', JStr ''CEO''),
              (''email'', JStr ''ada@acme.com''), (''phone'', JStr ''N/A'')])"
    by (simp add: buildCeo_def bindE_def fieldOf_def jsOr_def findContact_def)
  have p1: "pollOnce acme (Inr (JArr [recExact])) =
      Inr (Some (JObj [(''name'', JStr ''Ada Smith''), (''title'', JStr ''CEO''),
              (''email'', JStr ''ada@acme.com''), (''phone'', JStr ''N/A'')]))"
    using m b by (simp add: pollOnce_def bindE_def recExact_def fieldOf_def)
  have "pollLoop acme answeringWorld 0 0 =
      Inr (Some (JObj [(''name'', JStr ''Ada Smith''), (''title'', JStr ''CEO''),
              (''email'', JStr ''ada@acme.com''), (''phone'', JStr ''N/A'')]))"
    using p0 p1 by (simp add: answeringWorld_def)
  then show ?thesis
    by (simp add: enrichWithSignalHire_def enrichBody_def bindE_def answeringWorld_def acme_def)
qed

section \<open>Claims about the waiter\<close>

text \<open>
  Claim C3: a resolution attempt always returns, and returns the company with a \<open>ceo\<close> that
  is a populated candidate, the not-found sentinel or the error sentinel; it never passes
  an exception on. When the dispatch settles and every poll made before the 15 s budget is
  used up delivers a snapshot without a match, the result is the not-found sentinel
  \<open>{name: "Not found", title: "", email: "", phone: ""}\<close>. The error sentinel differs from
  it, and a populated candidate differs from both.
\<close>

theorem enrich_always_answers:
  "(\<exists>ceo. enrichWithSignalHire company w = Inr (JObj (setProp company ''ceo'' ceo))
          \<and> (ceo = notFoundCeo \<or> ceo = errorCeo \<or> populated ceo))
   \<and> (dispatch w = Inr ()
        \<and> (\<forall>i. elapsedAt w i < 15000 \<longrightarrow>
              (\<exists>snap. response w i = Inr snap \<and> findMatch company snap = Inr None))
        \<longrightarrow> enrichWithSignalHire company w = Inr (JObj (setProp company ''ceo'' notFoundCeo)))
   \<and> notFoundCeo =
        JObj [(''name'', JStr ''Not found''), (''title'', JStr []), (''email'', JStr []),
              (''phone'', JStr [])]
   \<and> errorCeo \<noteq> notFoundCeo
   \<and> (\<forall>ceo. populated ceo \<longrightarrow> ceo \<noteq> notFoundCeo \<and> ceo \<noteq> errorCeo)"
  using enrich_shape [of company w] enrich_timeout [of w company] sentinels_distinct
    populated_not_sentinel
  by (simp add: notFoundCeo_def [symmetric])

theorem enrich_always_answers_witness:
  "dispatch quietWorld = Inr ()
   \<and> enrichWithSignalHire acme quietWorld = Inr (JObj (acme @ [(''ceo'', notFoundCeo)]))"
proof -
  have d: "dispatch quietWorld = Inr ()" by (simp add: quietWorld_def)
  have n: "\<forall>i. elapsedAt quietWorld i < 15000 \<longrightarrow>
         (\<exists>snap. response quietWorld i = Inr snap \<and> findMatch acme snap = Inr None)"
    by (simp add: quietWorld_def findMatch_def)
  have "enrichWithSignalHire acme quietWorld = Inr (JObj (setProp acme ''ceo'' notFoundCeo))"
    using enrich_always_answers [of acme quietWorld] d n by blast
  then show ?thesis using d n by (simp add: acme_def)
qed

section \<open>Claims about the callback sink\<close>

lemma POST_appends_one:
  "responses (snd (POST_callback (Inr data) stamp writeOk s)) = responses s @ [data]"
  by (simp add: POST_callback_def Let_def)

text \<open>
  Claim C2 says that an array body is split into one record per element. The handler pushes
  the parsed body as it is: after a \<open>POST\<close> of a two-element array to the empty sink, \<open>GET\<close>
  returns one record, the array itself. The matcher reads \<open>r.candidate\<close> on that array,
  finds nothing and so misses the exact match that the first element would have given.
\<close>

theorem POST_array_kept_whole:
  "GET_callback (snd (POST_callback (Inr (JArr [recExact, recFailed])) stamp0 True emptySink))
     = Response 200 (JArr [JArr [recExact, recFailed]])
   \<and> length (responses (snd (POST_callback (Inr (JArr [recExact, recFailed])) stamp0 True emptySink))) = 1
   \<and> findMatch acme (JArr [JArr [recExact, recFailed]]) = Inr None
   \<and> findMatch acme (JArr [recExact, recFailed]) = Inr (Some recExact)"
  by (simp add: GET_callback_def POST_appends_one emptySink_def findMatch_def
      matchRecord_acme_recExact) (simp add: matchRecord_def bindE_def)

text \<open>
  Claim C8, as the specification states it: every parseable \<open>POST\<close> is answered with 200, and
  a failed backup write does not change the response. \<open>writeFile\<close> is awaited inside the
  \<open>try\<close>, so its rejection reaches the \<open>catch\<close>, which answers 500.
\<close>

theorem POST_write_failure_is_500:
  "status (fst (POST_callback (Inr recExact) stamp0 False emptySink)) = 500
   \<and> responses (snd (POST_callback (Inr recExact) stamp0 False emptySink)) = [recExact]"
  by (simp add: POST_callback_def Let_def emptySink_def)

text \<open>
  Claim C8, amended: for every parseable \<open>POST\<close> the payload is appended to the in-memory
  sink whether or not the backup write succeeds; the answer is 200 with
  \<open>{status: "success"}\<close> and one backup file when the write succeeds, and 500 with
  \<open>{status: "error"}\<close> and no backup file when it fails. A body that does not parse is
  answered with 500 and leaves the sink as it was.
\<close>

theorem POST_callback_contract:
  "responses (snd (POST_callback (Inr data) stamp writeOk s)) = responses s @ [data]
   \<and> (writeOk \<longrightarrow>
        fst (POST_callback (Inr data) stamp writeOk s)
          = Response 200 (JObj [(''status'', JStr ''success'')])
        \<and> backups (snd (POST_callback (Inr data) stamp writeOk s))
          = backups s @ [(backupName stamp, data)])
   \<and> (\<not> writeOk \<longrightarrow>
        fst (POST_callback (Inr data) stamp writeOk s)
          = Response 500 (JObj [(''status'', JStr ''error''),
                                (''message'', JStr ''Failed to process callback'')])
        \<and> backups (snd (POST_callback (Inr data) stamp writeOk s)) = backups s)
   \<and> POST_callback (Inl e) stamp writeOk s
        = (Response 500 (JObj [(''status'', JStr ''error''),
                               (''message'', JStr ''Failed to process callback'')]), s)"
  by (simp add: POST_callback_def Let_def)

theorem POST_callback_contract_witness:
  "fst (POST_callback (Inr recExact) stamp0 True emptySink)
     = Response 200 (JObj [(''status'', JStr ''success'')])
   \<and> snd (POST_callback (Inr recExact) stamp0 True emptySink)
     = \<lparr>responses = [recExact],
        backups = [(''signalhire_response_2024-05-01T10-20-30-123Z.json'', recExact)]\<rparr>
   \<and> status (fst (POST_callback (Inr recFailed) stamp0 False emptySink)) = 500
   \<and> snd (POST_callback (Inr recFailed) stamp0 False emptySink)
     = \<lparr>responses = [recFailed], backups = []\<rparr>"
proof -
  have n: "backupName stamp0 = ''signalhire_response_2024-05-01T10-20-30-123Z.json''"
    by (simp add: backupName_def stamp0_def)
  show ?thesis
    using POST_callback_contract [of recExact stamp0 True emptySink]
      POST_callback_contract [of recFailed stamp0 False emptySink] n
    by (simp add: emptySink_def sink.equality)
qed

section \<open>Facts about deduplication\<close>

lemma dedupeFilter_keys_defined:
  "dedupeFilter seen xs = Inr ys \<Longrightarrow> \<forall>c \<in> set xs. websiteKey c = Inr (keyOf c)"
proof (induction xs arbitrary: seen ys)
  case Nil
  then show ?case by simp
next
  case (Cons x xs)
  obtain k where k: "websiteKey x = Inr k"
    using Cons.prems by (auto split: sum.splits)
  then have kx: "websiteKey x = Inr (keyOf x)" by (simp add: keyOf_def)
  have "\<exists>seen' ys'. dedupeFilter seen' xs = Inr ys'"
  proof (cases "k = [] \<or> k \<in> seen")
    case True
    with k Cons.prems have "dedupeFilter seen xs = Inr ys" by auto
    then show ?thesis by blast
  next
    case False
    with k Cons.prems obtain kept where "dedupeFilter (insert k seen) xs = Inr kept"
      by (auto split: sum.splits)
    then show ?thesis by blast
  qed
  then obtain seen' ys' where "dedupeFilter seen' xs = Inr ys'" by blast
  from Cons.IH [OF this] kx show ?case by simp
qed

lemma dedupeFilter_total:
  "\<forall>c \<in> set xs. \<exists>k. websiteKey c = Inr k \<Longrightarrow> \<exists>ys. dedupeFilter seen xs = Inr ys"
proof (induction xs arbitrary: seen)
  case Nil
  then show ?case by simp
next
  case (Cons x xs)
  then obtain k where k: "websiteKey x = Inr k" by auto
  from Cons obtain ys1 where y1: "dedupeFilter seen xs = Inr ys1" by fastforce
  from Cons obtain ys2 where y2: "dedupeFilter (insert k seen) xs = Inr ys2" by fastforce
  show ?case using k y1 y2 by simp
qed

lemma dedupeFilter_subseq: "dedupeFilter seen xs = Inr ys \<Longrightarrow> subseq ys xs"
proof (induction xs arbitrary: seen ys)
  case Nil
  then show ?case by simp
next
  case (Cons x xs)
  then show ?case
    by (auto split: sum.splits if_splits)
qed

lemma dedupeFilter_keys:
  "dedupeFilter seen xs = Inr ys \<Longrightarrow>
     distinct (map keyOf ys) \<and> keyOf ` set ys = keyOf ` set xs - {[]} - seen"
proof (induction xs arbitrary: seen ys)
  case Nil
  then show ?case by simp
next
  case (Cons x xs)
  obtain k where k: "websiteKey x = Inr k"
    using Cons.prems by (auto split: sum.splits)
  then have kx: "keyOf x = k" by (simp add: keyOf_def)
  show ?case
  proof (cases "k = [] \<or> k \<in> seen")
    case True
    with k Cons.prems have "dedupeFilter seen xs = Inr ys" by auto
    from Cons.IH [OF this] True kx show ?thesis by auto
  next
    case False
    with k Cons.prems obtain kept where r: "dedupeFilter (insert k seen) xs = Inr kept"
      and ys: "ys = x # kept"
      by (auto split: sum.splits)
    from Cons.IH [OF r] have d: "distinct (map keyOf kept)"
      and s: "keyOf ` set kept = keyOf ` set xs - {[]} - insert k seen" by simp_all
    from s have "k \<notin> keyOf ` set kept" by blast
    with d ys kx have "distinct (map keyOf ys)" by simp
    moreover have "keyOf ` set ys = keyOf ` set (x # xs) - {[]} - seen"
      using s ys kx False by auto
    ultimately show ?thesis by simp
  qed
qed


lemma dedupe_spec_firstOcc: "dedupe_spec keyFn items = firstOcc {} keyFn items"
  by (simp add: dedupe_spec_def firstOcc_def)

lemma firstOcc_Nil: "firstOcc seen k [] = []"
  by (simp add: firstOcc_def)

lemma firstOcc_Cons:
  "firstOcc seen k (x # xs) =
     (if k x = [] \<or> k x \<in> seen then firstOcc seen k xs
      else x # firstOcc (insert (k x) seen) k xs)"
proof -
  let ?P = "\<lambda>i. k ((x # xs) ! i) \<noteq> [] \<and> k ((x # xs) ! i) \<notin> seen \<union> k ` set (take i (x # xs))"
  have up: "[0..<length (x # xs)] = 0 # map Suc [0..<length xs]"
    by (simp add: upt_conv_Cons map_Suc_upt del: upt_Suc)
  have tl: "map (\<lambda>i. (x # xs) ! i) (filter ?P (map Suc [0..<length xs]))
        = map (\<lambda>i. xs ! i)
            (filter (\<lambda>i. k (xs ! i) \<noteq> [] \<and> k (xs ! i) \<notin> insert (k x) seen \<union> k ` set (take i xs))
               [0..<length xs])"
  proof -
    have "filter (?P \<circ> Suc) [0..<length xs]
        = filter (\<lambda>i. k (xs ! i) \<noteq> [] \<and> k (xs ! i) \<notin> insert (k x) seen \<union> k ` set (take i xs))
            [0..<length xs]"
      by (intro filter_cong) auto
    then show ?thesis
      by (simp add: filter_map o_def)
  qed
  show ?thesis
  proof (cases "k x = [] \<or> k x \<in> seen")
    case True
    have "filter (\<lambda>i. k (xs ! i) \<noteq> [] \<and> k (xs ! i) \<notin> insert (k x) seen \<union> k ` set (take i xs))
               [0..<length xs]
        = filter (\<lambda>i. k (xs ! i) \<noteq> [] \<and> k (xs ! i) \<notin> seen \<union> k ` set (take i xs))
               [0..<length xs]"
      using True by (intro filter_cong) auto
    with True tl show ?thesis
      unfolding firstOcc_def up by auto
  next
    case False
    with tl show ?thesis
      unfolding firstOcc_def up by auto
  qed
qed

lemma dedupeFilter_firstOcc:
  "dedupeFilter seen xs = Inr ys \<Longrightarrow> ys = firstOcc seen keyOf xs"
proof (induction xs arbitrary: seen ys)
  case Nil
  then show ?case by (simp add: firstOcc_Nil)
next
  case (Cons x xs)
  obtain k where k: "websiteKey x = Inr k"
    using Cons.prems by (auto split: sum.splits)
  then have kx: "keyOf x = k" by (simp add: keyOf_def)
  show ?case
  proof (cases "k = [] \<or> k \<in> seen")
    case True
    with k Cons.prems have "dedupeFilter seen xs = Inr ys" by auto
    from Cons.IH [OF this] True kx show ?thesis by (simp add: firstOcc_Cons)
  next
    case False
    with k Cons.prems obtain kept where r: "dedupeFilter (insert k seen) xs = Inr kept"
      and ys: "ys = x # kept"
      by (auto split: sum.splits)
    from Cons.IH [OF r] ys False kx show ?thesis by (simp add: firstOcc_Cons)
  qed
qed

lemma jsFilter_subseq: "jsFilter p xs = Inr ys \<Longrightarrow> subseq ys xs"
proof (induction xs arbitrary: ys)
  case Nil
  then show ?case by simp
next
  case (Cons x xs)
  then show ?case by (auto split: sum.splits if_splits)
qed

lemma jsMap_length: "jsMap f xs = Inr ys \<Longrightarrow> length ys = length xs"
proof (induction xs arbitrary: ys)
  case Nil
  then show ?case by simp
next
  case (Cons x xs)
  then show ?case by (auto split: sum.splits)
qed

lemma extractResults_length: "extractResults d = Inr rs \<Longrightarrow> length rs \<le> 3"
  by (auto simp: extractResults_def bindE_def split: sum.splits jsval.splits dest!: jsMap_length)

lemma subseq_length: "subseq ys xs \<Longrightarrow> length ys \<le> length xs"
  by (rule list_emb_length)

lemma searchISVs_results:
  "searchISVs sw = Inr ys \<Longrightarrow>
     \<exists>d rs. extractResults d = Inr rs \<and> dedupeFilter {} rs = Inr ys"
  by (auto simp: searchISVs_def bindE_def split: sum.splits if_splits prod.splits)


lemma websiteKey_mkCompany: "websiteKey (mkCompany n w) = Inr (normalizeUrl w)"
  by (simp add: websiteKey_def mkCompany_def bindE_def fieldOf_def normalizeUrl_js_Str)

lemma fourCompanies_keys:
  "normalizeUrl ''https://www.Acme.com/'' = ''acme.com''"
  "normalizeUrl ''beta.io'' = ''beta.io''"
  "normalizeUrl ''acme.com'' = ''acme.com''"
  "normalizeUrl ''http://'' = []"
  by (simp_all add: normalize_eval)

lemma dedupeFilter_fourCompanies:
  "dedupeFilter {} fourCompanies
     = Inr [mkCompany ''Acme'' ''https://www.Acme.com/'', mkCompany ''Beta'' ''beta.io'']"
  by (simp add: fourCompanies_def websiteKey_mkCompany fourCompanies_keys)

lemma searchISVs_serpWorld0:
  "searchISVs serpWorld0
     = Inr [mkCompany ''Acme'' ''https://www.Acme.com/'', mkCompany ''Beta'' ''beta.io'']"
proof -
  have "extractResults (JObj [(''organic_results'',
        JArr [mkResult ''Acme'' ''https://www.Acme.com/'',
              JObj [(''link'', JStr ''untitled.example'')],
              mkResult ''Acme again'' ''acme.com'',
              mkResult ''Beta'' ''beta.io'',
              mkResult ''Gamma'' ''gamma.dev''])])
      = Inr [mkCompany ''Acme'' ''https://www.Acme.com/'', mkCompany ''Acme again'' ''acme.com'',
             mkCompany ''Beta'' ''beta.io'']"
    by (simp add: extractResults_def bindE_def fieldOf_def jsOr_def hasLinkAndTitle_def
        mkResult_def toCompany_def mkCompany_def)
  then show ?thesis
    by (simp add: searchISVs_def serpWorld0_def bindE_def websiteKey_mkCompany
        fourCompanies_keys)
qed

lemma jsMap_toCompany_shape:
  "jsMap toCompany xs = Inr ys \<Longrightarrow>
     \<forall>c \<in> set ys. \<exists>t l. c = JObj [(''name'', t), (''website'', l)]"
proof (induction xs arbitrary: ys)
  case Nil
  then show ?case by simp
next
  case (Cons x xs)
  then obtain y ys' where y: "toCompany x = Inr y" and r: "jsMap toCompany xs = Inr ys'"
    and e: "ys = y # ys'"
    by (auto split: sum.splits)
  from y have "\<exists>t l. y = JObj [(''name'', t), (''website'', l)]"
    by (auto simp: toCompany_def bindE_def split: sum.splits)
  with Cons.IH [OF r] e show ?case by simp
qed

lemma extractResults_shape:
  "extractResults d = Inr rs \<Longrightarrow> \<forall>c \<in> set rs. \<exists>t l. c = JObj [(''name'', t), (''website'', l)]"
  by (auto simp: extractResults_def bindE_def split: sum.splits jsval.splits
      dest!: jsMap_toCompany_shape)

lemma dedupeFilter_subset: "dedupeFilter seen xs = Inr ys \<Longrightarrow> set ys \<subseteq> set xs"
proof
  fix x
  assume d: "dedupeFilter seen xs = Inr ys" and x: "x \<in> set ys"
  from dedupeFilter_subseq [OF d] have "subseq ys xs" .
  from list_emb_set [OF this x] show "x \<in> set xs" by auto
qed

lemma searchISVs_shape:
  assumes "searchISVs sw = Inr ys" "c \<in> set ys"
  shows "\<exists>t l. c = JObj [(''name'', t), (''website'', l)]"
proof -
  obtain d rs where e: "extractResults d = Inr rs" and f: "dedupeFilter {} rs = Inr ys"
    using searchISVs_results [OF assms(1)] by blast
  from dedupeFilter_subset [OF f] assms(2) have "c \<in> set rs" by blast
  with extractResults_shape [OF e] show ?thesis by blast
qed

section \<open>Claims about deduplication\<close>

text \<open>
  Claim C7: whenever the deduplicating filter returns (it does as soon as every website is
  a string or missing), its result is the specification's \<open>dedupe\<close> by normalized website:
  the items whose key is non-empty and has not occurred at an earlier position, so the
  first occurrence of each key stays and later ones go; the result is a subsequence of the
  input, its keys are distinct and are exactly the non-empty keys of the input. What
  \<open>searchISVs\<close> returns has at most 3 items, with distinct non-empty keys.
\<close>

theorem dedupe_contract:
  "(dedupeFilter {} xs = Inr ys \<longrightarrow>
      ys = dedupe_spec keyOf xs \<and> subseq ys xs \<and> distinct (map keyOf ys)
      \<and> keyOf ` set ys = keyOf ` set xs - {[]})
   \<and> ((\<forall>c \<in> set xs. \<exists>k. websiteKey c = Inr k) \<longrightarrow> (\<exists>kept. dedupeFilter {} xs = Inr kept))
   \<and> (searchISVs sw = Inr zs \<longrightarrow>
        length zs \<le> 3 \<and> distinct (map keyOf zs) \<and> [] \<notin> keyOf ` set zs)"
proof (intro conjI impI)
  assume d: "dedupeFilter {} xs = Inr ys"
  show "ys = dedupe_spec keyOf xs"
    using dedupeFilter_firstOcc [OF d] by (simp add: dedupe_spec_firstOcc)
  show "subseq ys xs" using d by (rule dedupeFilter_subseq)
  show "distinct (map keyOf ys)" using dedupeFilter_keys [OF d] by simp
  show "keyOf ` set ys = keyOf ` set xs - {[]}" using dedupeFilter_keys [OF d] by simp
next
  assume "\<forall>c \<in> set xs. \<exists>k. websiteKey c = Inr k"
  then show "\<exists>kept. dedupeFilter {} xs = Inr kept" by (rule dedupeFilter_total)
next
  assume s: "searchISVs sw = Inr zs"
  then obtain d rs where e: "extractResults d = Inr rs" and f: "dedupeFilter {} rs = Inr zs"
    using searchISVs_results by blast
  have "length zs \<le> length rs"
    using dedupeFilter_subseq [OF f] by (rule subseq_length)
  with extractResults_length [OF e] show "length zs \<le> 3" by simp
  show "distinct (map keyOf zs)" using dedupeFilter_keys [OF f] by simp
  show "[] \<notin> keyOf ` set zs" using dedupeFilter_keys [OF f] by simp
qed

theorem dedupe_contract_witness:
  "dedupeFilter {} fourCompanies
     = Inr [mkCompany ''Acme'' ''https://www.Acme.com/'', mkCompany ''Beta'' ''beta.io'']
   \<and> dedupe_spec keyOf fourCompanies
     = [mkCompany ''Acme'' ''https://www.Acme.com/'', mkCompany ''Beta'' ''beta.io'']
   \<and> searchISVs serpWorld0
     = Inr [mkCompany ''Acme'' ''https://www.Acme.com/'', mkCompany ''Beta'' ''beta.io'']
   \<and> length [mkCompany ''Acme'' ''https://www.Acme.com/'', mkCompany ''Beta'' ''beta.io''] \<le> 3
   \<and> dedupeFilter {} [mkCompany ''Upper'' cafeUpper, mkCompany ''Lower'' cafeLower]
     = Inr [mkCompany ''Upper'' cafeUpper]"
proof -
  let ?ys = "[mkCompany ''Acme'' ''https://www.Acme.com/'', mkCompany ''Beta'' ''beta.io'']"
  have a: "dedupeFilter {} fourCompanies = Inr ?ys" by (rule dedupeFilter_fourCompanies)
  have b: "\<forall>c \<in> set fourCompanies. \<exists>k. websiteKey c = Inr k"
    by (simp add: fourCompanies_def websiteKey_mkCompany)
  have c: "searchISVs serpWorld0 = Inr ?ys" by (rule searchISVs_serpWorld0)
  have "?ys = dedupe_spec keyOf fourCompanies"
    using dedupe_contract [of fourCompanies ?ys serpWorld0 ?ys] a by blast
  moreover have "length ?ys \<le> 3"
    using dedupe_contract [of fourCompanies ?ys serpWorld0 ?ys] c by blast
  moreover have "\<exists>kept. dedupeFilter {} fourCompanies = Inr kept"
    using dedupe_contract [of fourCompanies ?ys serpWorld0 ?ys] b by blast
  moreover have "dedupeFilter {} [mkCompany ''Upper'' cafeUpper, mkCompany ''Lower'' cafeLower]
     = Inr [mkCompany ''Upper'' cafeUpper]"
  proof -
    have "normalizeUrl cafeLower = cafeLower"
      by (simp add: cafeLower_def normalize_eval)
    moreover have "cafeLower \<noteq> []" by (simp add: cafeLower_def)
    ultimately show ?thesis
      by (simp add: websiteKey_mkCompany normalizeUrl_cafe)
  qed
  ultimately show ?thesis using a c by simp
qed

section \<open>Claims about the enriched company\<close>

lemma enrich_error:
  "enrichBody company w = Inl e \<Longrightarrow>
     enrichWithSignalHire company w = Inr (JObj (setProp company ''ceo'' errorCeo))"
  by (simp add: enrichWithSignalHire_def)

lemma enrich_down:
  "enrichWithSignalHire company downWorld = Inr (JObj (setProp company ''ceo'' errorCeo))"
  by (rule enrich_dispatch_fails [of downWorld IOError]) (simp add: downWorld_def)

text \<open>
  Claim C10: \<open>enrichWithSignalHire\<close> is applied to the objects that \<open>searchISVs\<close> builds,
  which have the two fields \<open>name\<close> and \<open>website\<close>. For every company without a \<open>ceo\<close>
  field the result is the company with the one field \<open>ceo\<close> added after its own: every
  field of the input is present and unchanged. This holds whatever the outside does: when
  the \<open>try\<close> block throws the added \<open>ceo\<close> is the error sentinel, when no poll within the
  budget finds a match it is the not-found sentinel, and otherwise it is the populated
  candidate.
\<close>

theorem enrich_frame:
  "(''ceo'' \<notin> set (map fst company) \<longrightarrow>
      (\<exists>ceo. enrichWithSignalHire company w = Inr (JObj (company @ [(''ceo'', ceo)]))
          \<and> (ceo = notFoundCeo \<or> ceo = errorCeo \<or> populated ceo)
          \<and> (\<forall>k \<in> set (map fst company).
                fieldOf (company @ [(''ceo'', ceo)]) k = fieldOf company k))
      \<and> (\<forall>e. enrichBody company w = Inl e \<longrightarrow>
            enrichWithSignalHire company w = Inr (JObj (company @ [(''ceo'', errorCeo)])))
      \<and> (dispatch w = Inr ()
            \<and> (\<forall>i. elapsedAt w i < 15000 \<longrightarrow>
                  (\<exists>snap. response w i = Inr snap \<and> findMatch company snap = Inr None))
          \<longrightarrow> enrichWithSignalHire company w = Inr (JObj (company @ [(''ceo'', notFoundCeo)]))))
   \<and> (searchISVs sw = Inr ys \<and> c \<in> set ys \<longrightarrow>
        (\<exists>t l. c = JObj [(''name'', t), (''website'', l)]
           \<and> ''ceo'' \<notin> set (map fst [(''name'', t), (''website'', l)])))"
proof (intro conjI impI allI)
  assume f: "''ceo'' \<notin> set (map fst company)"
  obtain ceo where e: "enrichWithSignalHire company w = Inr (JObj (setProp company ''ceo'' ceo))"
    and k: "ceo = notFoundCeo \<or> ceo = errorCeo \<or> populated ceo"
    using enrich_shape [of company w] by blast
  have s: "setProp company ''ceo'' ceo = company @ [(''ceo'', ceo)]"
    using f by (rule setProp_fresh)
  have "\<forall>k \<in> set (map fst company). fieldOf (company @ [(''ceo'', ceo)]) k = fieldOf company k"
  proof
    fix k
    assume "k \<in> set (map fst company)"
    with f have "k \<noteq> ''ceo''" by blast
    then have "fieldOf (setProp company ''ceo'' ceo) k = fieldOf company k"
      by (rule fieldOf_setProp_other)
    with s show "fieldOf (company @ [(''ceo'', ceo)]) k = fieldOf company k" by simp
  qed
  with e k s
  show "\<exists>ceo. enrichWithSignalHire company w = Inr (JObj (company @ [(''ceo'', ceo)]))
          \<and> (ceo = notFoundCeo \<or> ceo = errorCeo \<or> populated ceo)
          \<and> (\<forall>k \<in> set (map fst company).
                fieldOf (company @ [(''ceo'', ceo)]) k = fieldOf company k)"
    by auto
next
  fix e
  assume "''ceo'' \<notin> set (map fst company)" and "enrichBody company w = Inl e"
  then show "enrichWithSignalHire company w = Inr (JObj (company @ [(''ceo'', errorCeo)]))"
    using enrich_error [of company w e] by (simp add: setProp_fresh)
next
  assume "''ceo'' \<notin> set (map fst company)"
    and "dispatch w = Inr ()
            \<and> (\<forall>i. elapsedAt w i < 15000 \<longrightarrow>
                  (\<exists>snap. response w i = Inr snap \<and> findMatch company snap = Inr None))"
  then show "enrichWithSignalHire company w = Inr (JObj (company @ [(''ceo'', notFoundCeo)]))"
    using enrich_timeout [of w company] by (simp add: setProp_fresh)
next
  assume "searchISVs sw = Inr ys \<and> c \<in> set ys"
  then have "\<exists>t l. c = JObj [(''name'', t), (''website'', l)]"
    using searchISVs_shape [of sw ys c] by blast
  then show "\<exists>t l. c = JObj [(''name'', t), (''website'', l)]
           \<and> ''ceo'' \<notin> set (map fst [(''name'', t), (''website'', l)])"
    by auto
qed

theorem enrich_frame_witness:
  "''ceo'' \<notin> set (map fst acme)
   \<and> enrichWithSignalHire acme answeringWorld =
       Inr (JObj (acme @ [(''ceo'',
          JObj [(''name'', JStr ''Ada Smith''), (''title'', JStr ''CEO''),
                (''email'', JStr ''ada@acme.com''), (''phone'', JStr ''N/A'')])]))
   \<and> enrichWithSignalHire acme quietWorld = Inr (JObj (acme @ [(''ceo'', notFoundCeo)]))
   \<and> enrichWithSignalHire acme downWorld = Inr (JObj (acme @ [(''ceo'', errorCeo)]))
   \<and> searchISVs serpWorld0
       = Inr [mkCompany ''Acme'' ''https://www.Acme.com/'', mkCompany ''Beta'' ''beta.io'']
   \<and> mkCompany ''Acme'' ''https://www.Acme.com/''
       = JObj [(''name'', JStr ''Acme''), (''website'', JStr ''https://www.Acme.com/'')]"
proof -
  have f: "''ceo'' \<notin> set (map fst acme)" by (simp add: acme_def)
  have q: "dispatch quietWorld = Inr ()
      \<and> (\<forall>i. elapsedAt quietWorld i < 15000 \<longrightarrow>
            (\<exists>snap. response quietWorld i = Inr snap \<and> findMatch acme snap = Inr None))"
    by (simp add: quietWorld_def findMatch_def)
  have a: "enrichWithSignalHire acme quietWorld = Inr (JObj (acme @ [(''ceo'', notFoundCeo)]))"
    using enrich_frame [of acme quietWorld] f q by blast
  have "enrichBody acme downWorld = Inl IOError"
    by (simp add: enrichBody_def bindE_def downWorld_def)
  then have b: "enrichWithSignalHire acme downWorld = Inr (JObj (acme @ [(''ceo'', errorCeo)]))"
    using enrich_frame [of acme downWorld] f by blast
  have s: "searchISVs serpWorld0
       = Inr [mkCompany ''Acme'' ''https://www.Acme.com/'', mkCompany ''Beta'' ''beta.io'']"
    by (rule searchISVs_serpWorld0)
  then have "\<exists>t l. mkCompany ''Acme'' ''https://www.Acme.com/''
      = JObj [(''name'', t), (''website'', l)]"
    using enrich_frame [of acme quietWorld serpWorld0
        "[mkCompany ''Acme'' ''https://www.Acme.com/'', mkCompany ''Beta'' ''beta.io'']"
        "mkCompany ''Acme'' ''https://www.Acme.com/''"]
    by simp
  from f a b s enrich_answering show ?thesis by (simp add: mkCompany_def)
qed

end
